theory Spec2Isabelle
  imports Main
begin

section \<open>Tokens\<close>

text \<open>
  The token kinds of \<^verbatim>\<open>pretty-printer.go\<close> (the \<^verbatim>\<open>iota\<close> constants) and the
  \<^verbatim>\<open>Token\<close> struct. A Go string is a sequence of bytes; \<^typ>\<open>string\<close> is a list of
  8-bit characters, so \<^term>\<open>length s\<close> is \<^verbatim>\<open>len(s)\<close> and \<^term>\<open>s ! i\<close> is the byte
  \<^verbatim>\<open>s[i]\<close> whenever \<^term>\<open>i < length s\<close>.
\<close>

datatype kind =
    LEFT_BRACE | RIGHT_BRACE | LEFT_BRACKET | RIGHT_BRACKET | COLON
  | OBJECT_COMMA | ARRAY_COMMA | TRUE | FALSE | NULL
  | STRING | ESCAPE | NUMBER | LETTER | UNKNOWN

record Token =
  kind :: kind
  lexeme :: string

abbreviation tok :: "kind \<Rightarrow> string \<Rightarrow> Token" where
  "tok k w \<equiv> \<lparr>kind = k, lexeme = w\<rparr>"

fun kindColor :: "kind \<Rightarrow> string" where
  "kindColor LEFT_BRACE = ''rgb(60, 63, 163)''"
| "kindColor RIGHT_BRACE = ''rgb(60, 63, 163)''"
| "kindColor LEFT_BRACKET = ''rgb(232, 71, 162)''"
| "kindColor RIGHT_BRACKET = ''rgb(232, 71, 162)''"
| "kindColor COLON = ''rgb(75, 193, 183)''"
| "kindColor OBJECT_COMMA = ''rgb(255, 177, 76)''"
| "kindColor ARRAY_COMMA = ''rgb(255, 177, 76)''"
| "kindColor TRUE = ''rgb(198, 76, 255)''"
| "kindColor FALSE = ''rgb(198, 76, 255)''"
| "kindColor NULL = ''rgb(198, 76, 255)''"
| "kindColor STRING = ''rgb(232, 6, 6)''"
| "kindColor ESCAPE = ''rgb(71, 155, 85)''"
| "kindColor NUMBER = ''rgb(76, 135, 255)''"
| "kindColor LETTER = ''rgb(63, 79, 74)''"
| "kindColor UNKNOWN = ''rgb(63, 79, 74)''"

section \<open>Go primitives used by the scanner\<close>

text \<open>
  Run-time panics of Go are values: indexing \<^verbatim>\<open>s[i]\<close> with \<^verbatim>\<open>i >= len(s)\<close> and
  slicing \<^verbatim>\<open>s[lo:hi]\<close> unless \<^verbatim>\<open>lo <= hi <= len(s)\<close>.
\<close>

datatype error = IndexOutOfRange | SliceOutOfRange

abbreviation dquote :: char where "dquote \<equiv> CHR 0x22"
abbreviation backslash :: char where "backslash \<equiv> CHR 0x5C"
abbreviation apostrophe :: char where "apostrophe \<equiv> CHR 0x27"
abbreviation newline :: char where "newline \<equiv> CHR 0x0A"

definition slice :: "string \<Rightarrow> nat \<Rightarrow> nat \<Rightarrow> error + string" where
  "slice s lo hi =
     (if lo \<le> hi \<and> hi \<le> length s then Inr (take (hi - lo) (drop lo s))
      else Inl SliceOutOfRange)"

text \<open>\<^verbatim>\<open>result = append(result, Token{k, s[lo:hi]})\<close>\<close>

definition append_slice ::
  "Token list \<Rightarrow> kind \<Rightarrow> string \<Rightarrow> nat \<Rightarrow> nat \<Rightarrow> error + Token list" where
  "append_slice result k s lo hi =
     (case slice s lo hi of
        Inl e \<Rightarrow> Inl e
      | Inr w \<Rightarrow> Inr (result @ [tok k w]))"

text \<open>
  \<^verbatim>\<open>unicode.IsLetter(rune(c))\<close> and \<^verbatim>\<open>unicode.IsDigit(rune(c))\<close> for a byte \<^verbatim>\<open>c\<close>:
  the byte is taken as the code point of the same number, so only the Latin-1 range of
  the standard library's tables matters. Its letters are A-Z, a-z, U+00AA, U+00B5,
  U+00BA, U+00C0-U+00D6, U+00D8-U+00F6 and U+00F8-U+00FF; its digits are 0-9.
\<close>

definition isLetter :: "char \<Rightarrow> bool" where
  "isLetter c =
     (let v = (of_char c :: nat) in
        (65 \<le> v \<and> v \<le> 90) \<or> (97 \<le> v \<and> v \<le> 122) \<or> v = 170 \<or> v = 181 \<or> v = 186
        \<or> (192 \<le> v \<and> v \<le> 214) \<or> (216 \<le> v \<and> v \<le> 246) \<or> (248 \<le> v \<and> v \<le> 255))"

definition isDigit :: "char \<Rightarrow> bool" where
  "isDigit c = (let v = (of_char c :: nat) in 48 \<le> v \<and> v \<le> 57)"

text \<open>
  \<^verbatim>\<open>string(c)\<close> for a byte \<^verbatim>\<open>c\<close> is the UTF-8 encoding of the code point of that
  number: the byte itself below 0x80, two bytes from 0x80 on.
\<close>

definition string_of_byte :: "char \<Rightarrow> string" where
  "string_of_byte c =
     (let v = (of_char c :: nat) in
        if v < 128 then [c]
        else [char_of (192 + v div 64), char_of (128 + v mod 64)])"

definition isValidNumberCode :: "char \<Rightarrow> bool" where
  "isValidNumberCode c =
     (isDigit c \<or> (c = CHR ''.'' \<or> c = CHR ''e'' \<or> c = CHR ''E'' \<or> c = CHR ''-'' \<or> c = CHR ''+''))"

section \<open>The scanner\<close>

text \<open>
  The loop of the string case (source lines 131-151), on the variables \<^verbatim>\<open>start\<close>,
  \<^verbatim>\<open>i\<close> and \<^verbatim>\<open>result\<close>. After a backslash, \<^verbatim>\<open>s[i]\<close> is read with no bounds check.
\<close>

function string_loop ::
  "string \<Rightarrow> nat \<Rightarrow> nat \<Rightarrow> Token list \<Rightarrow> error + (nat \<times> nat \<times> Token list)" where
  "string_loop s start i result =
     (if i < length s \<and> s ! i \<noteq> dquote then
        (if s ! i = backslash then
           (case append_slice result STRING s start i of
              Inl e \<Rightarrow> Inl e
            | Inr result1 \<Rightarrow>
                (if \<not> i + 1 < length s then Inl IndexOutOfRange
                 else if s ! (i + 1) = CHR ''u'' then
                   (case append_slice result1 ESCAPE s i (i + 1 + 5) of
                      Inl e \<Rightarrow> Inl e
                    | Inr result2 \<Rightarrow> string_loop s (i + 1 + 5) (i + 1 + 5) result2)
                 else
                   (case append_slice result1 ESCAPE s i (i + 1 + 1) of
                      Inl e \<Rightarrow> Inl e
                    | Inr result2 \<Rightarrow> string_loop s (i + 1 + 1) (i + 1 + 1) result2)))
         else string_loop s start (i + 1) result)
      else Inr (start, i, result))"
  by pat_completeness auto
termination
  by (relation "measure (\<lambda>(s, start, i, result). length s - i)") auto

declare string_loop.simps [simp del]

text \<open>The loops of the letter run (lines 176-178) and of the number (lines 183-185).\<close>

function letter_loop :: "string \<Rightarrow> nat \<Rightarrow> nat" where
  "letter_loop s i = (if i < length s \<and> isLetter (s ! i) then letter_loop s (i + 1) else i)"
  by pat_completeness auto
termination
  by (relation "measure (\<lambda>(s, i). length s - i)") auto

declare letter_loop.simps [simp del]

function number_loop :: "string \<Rightarrow> nat \<Rightarrow> nat" where
  "number_loop s i =
     (if i < length s \<and> isValidNumberCode (s ! i) then number_loop s (i + 1) else i)"
  by pat_completeness auto
termination
  by (relation "measure (\<lambda>(s, i). length s - i)") auto

declare number_loop.simps [simp del]

text \<open>
  The letter case (lines 154-180) is a switch of three clauses joined by
  \<^verbatim>\<open>fallthrough\<close>, which enters the next clause without evaluating its condition.
  Each clause is a function; a fallthrough is a call of the next clause.
\<close>

definition letter_clause :: "string \<Rightarrow> nat \<Rightarrow> Token list \<Rightarrow> error + (nat \<times> Token list)" where
  "letter_clause s i result =
     (let j = letter_loop s i in
        case append_slice result LETTER s i j of
          Inl e \<Rightarrow> Inl e
        | Inr result1 \<Rightarrow> Inr (j, result1))"

definition false_clause :: "string \<Rightarrow> nat \<Rightarrow> Token list \<Rightarrow> error + (nat \<times> Token list)" where
  "false_clause s i result =
     (case slice s i (i + 5) of
        Inl e \<Rightarrow> Inl e
      | Inr w \<Rightarrow>
          if w = ''false'' then
            (case append_slice result FALSE s i (i + 5) of
               Inl e \<Rightarrow> Inl e
             | Inr result1 \<Rightarrow> Inr (i + 5, result1))
          else letter_clause s i result)"

definition true_null_clause :: "string \<Rightarrow> nat \<Rightarrow> Token list \<Rightarrow> error + (nat \<times> Token list)" where
  "true_null_clause s i result =
     (case slice s i (i + 4) of
        Inl e \<Rightarrow> Inl e
      | Inr w \<Rightarrow>
          if w = ''true'' then
            (case append_slice result TRUE s i (i + 4) of
               Inl e \<Rightarrow> Inl e
             | Inr result1 \<Rightarrow> Inr (i + 4, result1))
          else if w = ''null'' then
            (case append_slice result NULL s i (i + 4) of
               Inl e \<Rightarrow> Inl e
             | Inr result1 \<Rightarrow> Inr (i + 4, result1))
          else false_clause s i result)"

definition letter_case :: "string \<Rightarrow> nat \<Rightarrow> Token list \<Rightarrow> error + (nat \<times> Token list)" where
  "letter_case s i result =
     (if i + 3 < length s \<and> (s ! i = CHR ''t'' \<or> s ! i = CHR ''n'') then true_null_clause s i result
      else if i + 4 < length s \<and> s ! i = CHR ''f'' then false_clause s i result
      else letter_clause s i result)"

text \<open>
  One iteration of the main loop (lines 101-190) at \<^verbatim>\<open>i < n\<close>: the new \<^verbatim>\<open>i\<close>,
  \<^verbatim>\<open>insideArray\<close> and \<^verbatim>\<open>result\<close>, or the panic.
\<close>

definition scan_step ::
  "string \<Rightarrow> nat \<Rightarrow> bool \<Rightarrow> Token list \<Rightarrow> error + (nat \<times> bool \<times> Token list)" where
  "scan_step s i insideArray result =
     (if s ! i = CHR '' '' then Inr (i + 1, insideArray, result)
      else if s ! i = CHR ''{'' then Inr (i + 1, insideArray, result @ [tok LEFT_BRACE ''{''])
      else if s ! i = CHR ''}'' then Inr (i + 1, insideArray, result @ [tok RIGHT_BRACE ''}''])
      else if s ! i = CHR ''['' then
        Inr (i + 1, \<not> insideArray, result @ [tok LEFT_BRACKET ''[''])
      else if s ! i = CHR '']'' then
        Inr (i + 1, \<not> insideArray, result @ [tok RIGHT_BRACKET '']''])
      else if s ! i = CHR '','' \<and> \<not> insideArray then
        Inr (i + 1, insideArray, result @ [tok OBJECT_COMMA '',''])
      else if s ! i = CHR '','' \<and> insideArray then
        Inr (i + 1, insideArray, result @ [tok ARRAY_COMMA '',''])
      else if s ! i = CHR '':'' then Inr (i + 1, insideArray, result @ [tok COLON '':''])
      else if s ! i = dquote then
        (case string_loop s i (i + 1) result of
           Inl e \<Rightarrow> Inl e
         | Inr (start, j, result1) \<Rightarrow>
             (case append_slice result1 STRING s start (j + 1) of
                Inl e \<Rightarrow> Inl e
              | Inr result2 \<Rightarrow> Inr (j + 1, insideArray, result2)))
      else if isLetter (s ! i) then
        (case letter_case s i result of
           Inl e \<Rightarrow> Inl e
         | Inr (j, result1) \<Rightarrow> Inr (j, insideArray, result1))
      else if s ! i = CHR ''-'' \<or> isDigit (s ! i) then
        (let j = number_loop s i in
           case append_slice result NUMBER s i j of
             Inl e \<Rightarrow> Inl e
           | Inr result1 \<Rightarrow> Inr (j, insideArray, result1))
      else Inr (i + 1, insideArray, result @ [tok UNKNOWN (string_of_byte (s ! i))]))"

text \<open>
  Every iteration that does not panic moves \<^verbatim>\<open>i\<close> forward, so the main loop ends.
\<close>

lemma append_slice_Inr:
  "append_slice result k s lo hi = Inr r \<longleftrightarrow>
     lo \<le> hi \<and> hi \<le> length s \<and> r = result @ [tok k (take (hi - lo) (drop lo s))]"
  by (auto simp: append_slice_def slice_def)

lemma string_loop_progress:
  "string_loop s start i result = Inr (start', j, result') \<Longrightarrow> i \<le> j"
proof (induction s start i result rule: string_loop.induct)
  case (1 s start i result)
  note eq = "1.prems" [unfolded string_loop.simps [of s start i result]]
  show ?case
  proof (cases "i < length s \<and> s ! i \<noteq> dquote")
    case False
    with eq show ?thesis by (simp split: if_splits)
  next
    case True
    note loop = True
    show ?thesis
    proof (cases "s ! i = backslash")
      case False
      with loop eq have "string_loop s start (i + 1) result = Inr (start', j, result')"
        by simp
      with "1.IH"(3) loop False show ?thesis by fastforce
    next
      case True
      from loop True eq obtain result1 where
        r1: "append_slice result STRING s start i = Inr result1"
        by (auto split: sum.splits)
      from loop True eq r1 have nxt: "i + 1 < length s"
        by (auto split: if_splits)
      show ?thesis
      proof (cases "s ! (i + 1) = CHR ''u''")
        case u: True
        from loop True eq r1 nxt u obtain result2 where
          r2: "append_slice result1 ESCAPE s i (i + 1 + 5) = Inr result2"
          and rec: "string_loop s (i + 1 + 5) (i + 1 + 5) result2 = Inr (start', j, result')"
          by (auto split: sum.splits)
        from "1.IH"(1)[OF loop True r1 _ u r2 rec] nxt show ?thesis by simp
      next
        case nu: False
        from loop True eq r1 nxt nu obtain result2 where
          r2: "append_slice result1 ESCAPE s i (i + 1 + 1) = Inr result2"
          and rec: "string_loop s (i + 1 + 1) (i + 1 + 1) result2 = Inr (start', j, result')"
          by (auto split: sum.splits)
        from "1.IH"(2)[OF loop True r1 _ nu r2 rec] nxt show ?thesis by simp
      qed
    qed
  qed
qed

lemma letter_loop_ge: "i \<le> letter_loop s i"
proof (induction s i rule: letter_loop.induct)
  case (1 s i)
  then show ?case by (subst letter_loop.simps) auto
qed

lemma number_loop_ge: "i \<le> number_loop s i"
proof (induction s i rule: number_loop.induct)
  case (1 s i)
  then show ?case by (subst number_loop.simps) auto
qed

lemma letter_loop_progress: "i < length s \<Longrightarrow> isLetter (s ! i) \<Longrightarrow> i < letter_loop s i"
  using letter_loop_ge [of "i + 1" s] by (subst letter_loop.simps) simp

lemma number_loop_progress:
  "i < length s \<Longrightarrow> isValidNumberCode (s ! i) \<Longrightarrow> i < number_loop s i"
  using number_loop_ge [of "i + 1" s] by (subst number_loop.simps) simp

lemma letter_case_progress:
  "i < length s \<Longrightarrow> isLetter (s ! i) \<Longrightarrow> letter_case s i result = Inr (j, result') \<Longrightarrow> i < j"
  using letter_loop_progress [of i s]
  by (auto simp: letter_case_def true_null_clause_def false_clause_def letter_clause_def
      append_slice_Inr Let_def split: if_splits sum.splits)

lemma scan_step_progress:
  assumes "i < length s" and "scan_step s i insideArray result = Inr (j, insideArray', result')"
  shows "i < j"
proof -
  have str: "i < Suc k" if "string_loop s i (Suc i) result = Inr (start, k, result1)"
    for start k result1
    using string_loop_progress [OF that] by simp
  have num: "i < number_loop s i" if "s ! i = CHR ''-'' \<or> isDigit (s ! i)"
    using number_loop_progress [of i s] assms(1) that by (auto simp: isValidNumberCode_def)
  have ltr: "i < k" if "isLetter (s ! i)" "letter_case s i result = Inr (k, result1)"
    for k result1
    using letter_case_progress [OF assms(1) that] .
  from assms(2) show ?thesis
    unfolding scan_step_def
    using str num ltr
    by (auto simp: Let_def append_slice_Inr split: if_splits sum.splits)
qed

text \<open>The main loop (line 100) and \<^verbatim>\<open>scan\<close>; a nil slice is the empty list.\<close>

function scan_loop :: "string \<Rightarrow> nat \<Rightarrow> bool \<Rightarrow> Token list \<Rightarrow> error + Token list" where
  "scan_loop s i insideArray result =
     (if i < length s then
        (case scan_step s i insideArray result of
           Inl e \<Rightarrow> Inl e
         | Inr (j, insideArray1, result1) \<Rightarrow> scan_loop s j insideArray1 result1)
      else Inr result)"
  by pat_completeness auto
termination
proof (relation "measure (\<lambda>(s, i, insideArray, result). length s - i)")
  fix s i insideArray result x j y insideArray1 result1
  assume "i < length s" "scan_step s i insideArray result = Inr x"
    "(j, y) = x" "(insideArray1, result1) = y"
  then have "i < j"
    using scan_step_progress [of i s insideArray result j insideArray1 result1] by simp
  with \<open>i < length s\<close>
  show "((s, j, insideArray1, result1), (s, i, insideArray, result))
          \<in> measure (\<lambda>(s, i, insideArray, result). length s - i)"
    by simp
qed simp

declare scan_loop.simps [simp del]

definition scan :: "string \<Rightarrow> error + Token list" where
  "scan s = scan_loop s 0 False []"

section \<open>The renderer\<close>

text \<open>
  \<^verbatim>\<open>colorizedPrint\<close> writes to standard output; the model returns the text written.
  \<^verbatim>\<open>braceCount\<close> is a Go \<^verbatim>\<open>int\<close>; it moves by one per token, so it cannot leave
  the 64-bit range on a token slice that fits in memory, and is an \<^typ>\<open>int\<close> here.
\<close>

definition printSpanTags :: "string \<Rightarrow> string \<Rightarrow> string" where
  "printSpanTags color lx =
     ''<span style='' @ [dquote] @ ''color:'' @ color @ [dquote] @ ''>'' @ lx @ ''</span>''"

function printIndent_loop :: "int \<Rightarrow> int \<Rightarrow> string" where
  "printIndent_loop i num = (if i < num then ''  '' @ printIndent_loop (i + 1) num else [])"
  by pat_completeness auto
termination
  by (relation "measure (\<lambda>(i, num). nat (num - i))") auto

declare printIndent_loop.simps [simp del]

definition printIndent :: "int \<Rightarrow> string" where
  "printIndent num = printIndent_loop 0 num"

text \<open>
  The switch on one byte of a STRING lexeme (lines 228-241). Its default case writes
  \<^verbatim>\<open>string(t.lexeme[i])\<close>, the UTF-8 encoding of the code point of the byte.
\<close>

definition print_string_byte :: "string \<Rightarrow> char \<Rightarrow> string" where
  "print_string_byte color c =
     (if c = CHR ''<'' then printSpanTags color ''&lt;''
      else if c = CHR ''>'' then printSpanTags color ''&gt;''
      else if c = CHR ''&'' then printSpanTags color ''&amp;''
      else if c = dquote then printSpanTags color ''&quot;''
      else if c = apostrophe then printSpanTags color ''&apos;''
      else printSpanTags color (string_of_byte c))"

text \<open>The loop over the bytes of a STRING lexeme (line 227).\<close>

fun print_string :: "string \<Rightarrow> string \<Rightarrow> string" where
  "print_string color [] = []"
| "print_string color (c # cs) = print_string_byte color c @ print_string color cs"

text \<open>
  The body of the loop over the tokens (lines 200-247): from \<^verbatim>\<open>braceCount\<close> and the
  text written so far to the new \<^verbatim>\<open>braceCount\<close> and text.
\<close>

definition print_token :: "int \<times> string \<Rightarrow> Token \<Rightarrow> int \<times> string" where
  "print_token st t =
     (let braceCount = fst st; out = snd st; span = printSpanTags (kindColor (kind t)) (lexeme t) in
      case kind t of
        LEFT_BRACE \<Rightarrow>
          (braceCount + 1,
           out @ [newline] @ printIndent braceCount @ span @ [newline] @ printIndent (braceCount + 1))
      | RIGHT_BRACE \<Rightarrow>
          (braceCount - 1,
           out @ [newline] @ printIndent (braceCount - 1) @ span @ [newline]
             @ printIndent (braceCount - 1))
      | COLON \<Rightarrow> (braceCount, out @ '' '' @ span @ '' '')
      | OBJECT_COMMA \<Rightarrow> (braceCount, out @ span @ [newline] @ printIndent braceCount)
      | ARRAY_COMMA \<Rightarrow> (braceCount, out @ span @ '' '')
      | STRING \<Rightarrow> (braceCount, out @ print_string (kindColor (kind t)) (lexeme t))
      | UNKNOWN \<Rightarrow> (braceCount, out)
      | _ \<Rightarrow> (braceCount, out @ span))"

definition colorizedPrint :: "Token list \<Rightarrow> string" where
  "colorizedPrint tokens =
     snd (foldl print_token
            (0, ''<span style='' @ [dquote] @ ''font-family:monospace; white-space:pre'' @ [dquote] @ ''>'')
            tokens)
     @ ''</span>''"

text \<open>\<^verbatim>\<open>main\<close> after the file is read: scan, then print.\<close>

definition pretty_print :: "string \<Rightarrow> error + string" where
  "pretty_print json = (case scan json of Inl e \<Rightarrow> Inl e | Inr tokens \<Rightarrow> Inr (colorizedPrint tokens))"

section \<open>Notions used in the statements\<close>

text \<open>The number of tokens of one kind, and the number of bracket tokens, in a token list.\<close>

definition count_kind :: "kind \<Rightarrow> Token list \<Rightarrow> nat" where
  "count_kind k ts = length (filter (\<lambda>t. kind t = k) ts)"



text \<open>
  The positions at which the main loop takes its first case (a plain space, skipped
  with no token): the loop of \<^verbatim>\<open>scan\<close> run again, collecting those positions.
\<close>

function skipped_spaces :: "string \<Rightarrow> nat \<Rightarrow> bool \<Rightarrow> Token list \<Rightarrow> nat list" where
  "skipped_spaces s i insideArray result =
     (if i < length s then
        (case scan_step s i insideArray result of
           Inl e \<Rightarrow> []
         | Inr (j, insideArray1, result1) \<Rightarrow>
             (if s ! i = CHR '' '' then [i] else []) @ skipped_spaces s j insideArray1 result1)
      else [])"
  by pat_completeness auto
termination
proof (relation "measure (\<lambda>(s, i, insideArray, result). length s - i)")
  fix s i insideArray result x j y insideArray1 result1
  assume "i < length s" "scan_step s i insideArray result = Inr x"
    "(j, y) = x" "(insideArray1, result1) = y"
  then have "i < j"
    using scan_step_progress [of i s insideArray result j insideArray1 result1] by simp
  with \<open>i < length s\<close>
  show "((s, j, insideArray1, result1), (s, i, insideArray, result))
          \<in> measure (\<lambda>(s, i, insideArray, result). length s - i)"
    by simp
qed simp

declare skipped_spaces.simps [simp del]

section \<open>The regions of an input, after the specification\<close>

text \<open>
  The specification's words for strings (section 4.1), read on the text itself: a double
  quote begins a string region that runs to the next double quote not consumed by an
  escape; at a backslash the fragment read so far is one STRING token and the backslash
  with the next byte (for \<^verbatim>\<open>u\<close>, with the four bytes after it as well) is one ESCAPE
  token; the closing quote ends the last fragment. The fragments hold the quotes.
  \<open>literal_spec frag cs\<close> reads the text \<open>cs\<close> after the fragment \<open>frag\<close> and gives the
  tokens of the region and the text after its closing quote, or nothing when the
  region or an escape is cut off by the end of the input.
\<close>

fun literal_spec :: "string \<Rightarrow> string \<Rightarrow> (Token list \<times> string) option" where
  "literal_spec frag [] = None"
| "literal_spec frag (c # cs) =
     (if c = dquote then Some ([tok STRING (frag @ [c])], cs)
      else if c = backslash then
        (case cs of
           [] \<Rightarrow> None
         | d # ds \<Rightarrow>
             if d = CHR ''u'' then
               (if length ds < 4 then None
                else map_option (\<lambda>(g, rest). (tok STRING frag # tok ESCAPE (c # d # take 4 ds) # g, rest))
                       (literal_spec [] (drop 4 ds)))
             else map_option (\<lambda>(g, rest). (tok STRING frag # tok ESCAPE [c, d] # g, rest))
                    (literal_spec [] ds))
      else literal_spec (frag @ [c]) cs)"

lemma literal_spec_rest:
  "literal_spec frag cs = Some (g, rest) \<Longrightarrow> length rest < length cs"
proof (induction frag cs arbitrary: g rest rule: literal_spec.induct)
  case (1 frag)
  then show ?case by simp
next
  case (2 frag c cs)
  show ?case
  proof (cases "c = dquote")
    case True
    with "2.prems" show ?thesis by simp
  next
    case nq: False
    show ?thesis
    proof (cases "c = backslash")
      case False
      with nq "2.prems" "2.IH"(3) show ?thesis by fastforce
    next
      case True
      with nq "2.prems" obtain d ds where cs: "cs = d # ds"
        by (cases cs) simp_all
      show ?thesis
      proof (cases "d = CHR ''u''")
        case u: True
        with nq True cs "2.prems" have len: "\<not> length ds < 4"
          by (auto split: if_splits)
        with nq True cs u "2.prems" obtain g' where
          "literal_spec [] (drop 4 ds) = Some (g', rest)"
          by auto
        from "2.IH"(1) [OF nq True cs u len this] cs show ?thesis by simp
      next
        case nu: False
        with nq True cs "2.prems" obtain g' where
          "literal_spec [] ds = Some (g', rest)"
          by auto
        from "2.IH"(2) [OF nq True cs nu this] cs show ?thesis by simp
      qed
    qed
  qed
qed

text \<open>
  The input as a sequence of regions: a byte outside any string, or a string region
  with its tokens.
\<close>

datatype region = Outside char | Literal "Token list"

function regions_spec :: "string \<Rightarrow> region list option" where
  "regions_spec [] = Some []"
| "regions_spec (c # cs) =
     (if c = dquote then
        (case literal_spec [c] cs of
           None \<Rightarrow> None
         | Some (g, rest) \<Rightarrow> map_option ((#) (Literal g)) (regions_spec rest))
      else map_option ((#) (Outside c)) (regions_spec cs))"
  by pat_completeness auto
termination
proof (relation "measure length")
  fix c cs x g rest
  assume "c = dquote" "literal_spec [c] cs = Some x" "(g, rest) = x"
  then have "length rest < length cs"
    using literal_spec_rest [of "[c]" cs g rest] by simp
  then show "(rest, c # cs) \<in> measure length" by simp
qed simp_all

fun outside_chars :: "region list \<Rightarrow> string" where
  "outside_chars [] = []"
| "outside_chars (Outside c # rs) = c # outside_chars rs"
| "outside_chars (Literal g # rs) = outside_chars rs"

fun literal_groups :: "region list \<Rightarrow> Token list list" where
  "literal_groups [] = []"
| "literal_groups (Outside c # rs) = literal_groups rs"
| "literal_groups (Literal g # rs) = g # literal_groups rs"

fun region_text :: "region \<Rightarrow> string" where
  "region_text (Outside c) = [c]"
| "region_text (Literal g) = concat (map lexeme g)"

text \<open>
  The structural tokens of a text that holds no string, after the specification: one
  token for each of the six characters, the comma classified by a toggle that starts
  with the given value and flips at every bracket. Other bytes give no token here.
\<close>

fun structural_tokens_spec :: "bool \<Rightarrow> string \<Rightarrow> Token list" where
  "structural_tokens_spec inside [] = []"
| "structural_tokens_spec inside (c # cs) =
     (if c = CHR ''{'' then tok LEFT_BRACE ''{'' # structural_tokens_spec inside cs
      else if c = CHR ''}'' then tok RIGHT_BRACE ''}'' # structural_tokens_spec inside cs
      else if c = CHR ''['' then tok LEFT_BRACKET ''['' # structural_tokens_spec (\<not> inside) cs
      else if c = CHR '']'' then tok RIGHT_BRACKET '']'' # structural_tokens_spec (\<not> inside) cs
      else if c = CHR '','' then
        tok (if inside then ARRAY_COMMA else OBJECT_COMMA) '','' # structural_tokens_spec inside cs
      else if c = CHR '':'' then tok COLON '':'' # structural_tokens_spec inside cs
      else structural_tokens_spec inside cs)"

definition structural_kind :: "kind \<Rightarrow> bool" where
  "structural_kind k =
     (k = LEFT_BRACE \<or> k = RIGHT_BRACE \<or> k = LEFT_BRACKET \<or> k = RIGHT_BRACKET
      \<or> k = COLON \<or> k = OBJECT_COMMA \<or> k = ARRAY_COMMA)"

definition string_kind :: "kind \<Rightarrow> bool" where
  "string_kind k = (k = STRING \<or> k = ESCAPE)"


section \<open>Claims settled by running the code\<close>

text \<open>
  C10. On the empty input \<^verbatim>\<open>scan\<close> returns no token, and printing no token writes the
  opening tag of the container, monospace and whitespace-preserving, and directly after
  it the closing tag.
\<close>

theorem C10_empty_input:
  "scan [] = Inr [] \<and>
   colorizedPrint [] =
     ''<span style='' @ [dquote] @ ''font-family:monospace; white-space:pre'' @ [dquote] @ ''>''
       @ ''</span>''"
  by (simp add: scan_def scan_loop.simps colorizedPrint_def)

text \<open>
  C9. The input \<^verbatim>\<open>[1,2,3]\<close> scans to three NUMBER tokens with an ARRAY_COMMA between
  them, inside the two brackets. Printed, each comma is its coloured span and one
  space; the whole output has no newline. For any ARRAY_COMMA token the printer writes
  the span and a space and leaves \<^verbatim>\<open>braceCount\<close> as it is.
\<close>

theorem C9_array_one_line:
  "scan ''[1,2,3]'' =
     Inr [tok LEFT_BRACKET ''['', tok NUMBER ''1'', tok ARRAY_COMMA '','', tok NUMBER ''2'',
          tok ARRAY_COMMA '','', tok NUMBER ''3'', tok RIGHT_BRACKET '']'']
   \<and> pretty_print ''[1,2,3]'' =
     Inr (''<span style='' @ [dquote] @ ''font-family:monospace; white-space:pre'' @ [dquote] @ ''>''
          @ printSpanTags ''rgb(232, 71, 162)'' ''[''
          @ printSpanTags ''rgb(76, 135, 255)'' ''1''
          @ printSpanTags ''rgb(255, 177, 76)'' '','' @ '' ''
          @ printSpanTags ''rgb(76, 135, 255)'' ''2''
          @ printSpanTags ''rgb(255, 177, 76)'' '','' @ '' ''
          @ printSpanTags ''rgb(76, 135, 255)'' ''3''
          @ printSpanTags ''rgb(232, 71, 162)'' '']''
          @ ''</span>'')
   \<and> pretty_print ''[1,2,3]'' \<noteq> Inl e
   \<and> newline \<notin> set (projr (pretty_print ''[1,2,3]''))
   \<and> print_token (braceCount, out) (tok ARRAY_COMMA w) =
       (braceCount, out @ printSpanTags ''rgb(255, 177, 76)'' w @ '' '')"
proof -
  have sc: "scan ''[1,2,3]'' =
     Inr [tok LEFT_BRACKET ''['', tok NUMBER ''1'', tok ARRAY_COMMA '','', tok NUMBER ''2'',
          tok ARRAY_COMMA '','', tok NUMBER ''3'', tok RIGHT_BRACKET '']'']"
    by code_simp
  have pp: "pretty_print ''[1,2,3]'' =
     Inr (''<span style='' @ [dquote] @ ''font-family:monospace; white-space:pre'' @ [dquote] @ ''>''
          @ printSpanTags ''rgb(232, 71, 162)'' ''[''
          @ printSpanTags ''rgb(76, 135, 255)'' ''1''
          @ printSpanTags ''rgb(255, 177, 76)'' '','' @ '' ''
          @ printSpanTags ''rgb(76, 135, 255)'' ''2''
          @ printSpanTags ''rgb(255, 177, 76)'' '','' @ '' ''
          @ printSpanTags ''rgb(76, 135, 255)'' ''3''
          @ printSpanTags ''rgb(232, 71, 162)'' '']''
          @ ''</span>'')"
    unfolding pretty_print_def sc by (simp add: colorizedPrint_def print_token_def)
  have nl: "newline \<notin> set (projr (pretty_print ''[1,2,3]''))"
    unfolding pp by (simp add: printSpanTags_def)
  have st: "print_token (braceCount, out) (tok ARRAY_COMMA w) =
       (braceCount, out @ printSpanTags ''rgb(255, 177, 76)'' w @ '' '')"
    by (simp add: print_token_def)
  from sc pp nl st show ?thesis by simp
qed

text \<open>
  C1. The input \<^verbatim>\<open>{"a":"b\<close> of the specification's Example 4 ends inside a string.
  The loop of the string case stops at the end of the input; the statement after it
  moves \<^verbatim>\<open>i\<close> one past the end and slices up to it, which panics.
\<close>

theorem C1_unterminated_string_panics:
  "scan (''{'' @ [dquote] @ ''a'' @ [dquote] @ '':'' @ [dquote] @ ''b'') = Inl SliceOutOfRange"
  by code_simp

text \<open>
  C2. The input \<^verbatim>\<open>tabc\<close> is a run of four letters at the end of the input. The first
  clause compares its four bytes with \<^verbatim>\<open>true\<close> and \<^verbatim>\<open>null\<close> and falls through into
  the second clause, past that clause's bounds check, where slicing five bytes panics.
\<close>

theorem C2_trailing_letters_panic:
  "scan ''tabc'' = Inl SliceOutOfRange"
  by code_simp

section \<open>The renderer: indentation\<close>

lemma printIndent_nonpositive: "num \<le> 0 \<Longrightarrow> printIndent num = []"
  by (simp add: printIndent_def printIndent_loop.simps)

lemma braceCount_print_token:
  "fst (print_token (d, out) t) =
     d + (if kind t = LEFT_BRACE then 1 else 0) - (if kind t = RIGHT_BRACE then 1 else 0)"
  by (cases "kind t") (simp_all add: print_token_def)

lemma braceCount_foldl:
  "fst (foldl print_token (d, out) ts) =
     d + int (count_kind LEFT_BRACE ts) - int (count_kind RIGHT_BRACE ts)"
proof (induction ts arbitrary: d out)
  case Nil
  show ?case by (simp add: count_kind_def)
next
  case (Cons t ts)
  obtain d' out' where st: "print_token (d, out) t = (d', out')"
    by (cases "print_token (d, out) t")
  with braceCount_print_token [of d out t]
  have "d' = d + (if kind t = LEFT_BRACE then 1 else 0) - (if kind t = RIGHT_BRACE then 1 else 0)"
    by simp
  with Cons.IH [of d' out'] st show ?case
    by (simp add: count_kind_def)
qed

text \<open>
  C8. A RIGHT_BRACE is unmatched when the tokens before it hold no more LEFT_BRACE
  than RIGHT_BRACE tokens (every earlier LEFT_BRACE is used up); this covers every
  RIGHT_BRACE that bracket matching leaves without a partner. At such a token
  \<^verbatim>\<open>braceCount\<close> is at most 0, the printer takes it below 0, and both calls of
  \<^verbatim>\<open>printIndent\<close> write nothing: the token is printed as a newline, its span and a
  newline.
\<close>

theorem C8_unmatched_right_brace:
  assumes "kind t = RIGHT_BRACE"
    and "count_kind LEFT_BRACE pre \<le> count_kind RIGHT_BRACE pre"
  shows "\<exists>d out. foldl print_token (0, out0) pre = (d, out)
           \<and> d = int (count_kind LEFT_BRACE pre) - int (count_kind RIGHT_BRACE pre)
           \<and> foldl print_token (0, out0) (pre @ [t]) =
               (d - 1, out @ [newline] @ printSpanTags (kindColor RIGHT_BRACE) (lexeme t) @ [newline])
           \<and> d - 1 < 0 \<and> printIndent (d - 1) = []"
proof -
  obtain d out where st: "foldl print_token (0, out0) pre = (d, out)"
    by (cases "foldl print_token (0, out0) pre")
  from braceCount_foldl [of 0 out0 pre] st
  have d: "d = int (count_kind LEFT_BRACE pre) - int (count_kind RIGHT_BRACE pre)"
    by simp
  with assms(2) have neg: "d - 1 \<le> 0" "d - 1 < 0" by simp_all
  have "print_token (d, out) t =
      (d - 1, out @ [newline] @ printSpanTags (kindColor RIGHT_BRACE) (lexeme t) @ [newline])"
    using assms(1) printIndent_nonpositive [OF neg(1)] by (simp add: print_token_def)
  with st d neg printIndent_nonpositive [OF neg(1)] show ?thesis by simp
qed

theorem C8_unmatched_right_brace_witness:
  "kind (tok RIGHT_BRACE ''}'') = RIGHT_BRACE
   \<and> count_kind LEFT_BRACE [] \<le> count_kind RIGHT_BRACE []
   \<and> foldl print_token (0, []) ([] @ [tok RIGHT_BRACE ''}'']) =
       (- 1, [newline] @ printSpanTags ''rgb(60, 63, 163)'' ''}'' @ [newline])
   \<and> printIndent (- 1) = []"
  using C8_unmatched_right_brace [of "tok RIGHT_BRACE ''}''" "[]" "[]"]
  by (simp add: count_kind_def)

section \<open>What one iteration of the scanner appends\<close>

lemma isLetter_not_special:
  "isLetter c \<Longrightarrow> c \<noteq> CHR '' '' \<and> c \<noteq> CHR ''{'' \<and> c \<noteq> CHR ''}'' \<and> c \<noteq> CHR ''['' \<and> c \<noteq> CHR '']''
     \<and> c \<noteq> CHR '','' \<and> c \<noteq> CHR '':'' \<and> c \<noteq> dquote \<and> c \<noteq> CHR ''-'' \<and> \<not> isDigit c"
  by (auto simp: isLetter_def isDigit_def Let_def)

lemma isDigit_not_special:
  "isDigit c \<Longrightarrow> c \<noteq> CHR '' '' \<and> c \<noteq> CHR ''{'' \<and> c \<noteq> CHR ''}'' \<and> c \<noteq> CHR ''['' \<and> c \<noteq> CHR '']''
     \<and> c \<noteq> CHR '','' \<and> c \<noteq> CHR '':'' \<and> c \<noteq> dquote"
  by (auto simp: isDigit_def Let_def)

lemma substring_join:
  "lo \<le> mid \<Longrightarrow> mid \<le> hi \<Longrightarrow>
     take (mid - lo) (drop lo s) @ take (hi - mid) (drop mid s) = take (hi - lo) (drop lo s)"
proof -
  assume a: "lo \<le> mid" "mid \<le> hi"
  have "take (hi - lo) (drop lo s) = take ((mid - lo) + (hi - mid)) (drop lo s)"
    using a by simp
  also have "\<dots> = take (mid - lo) (drop lo s) @ take (hi - mid) (drop (mid - lo) (drop lo s))"
    by (rule take_add)
  also have "drop (mid - lo) (drop lo s) = drop mid s"
    using a by simp
  finally show ?thesis by simp
qed

text \<open>
  The loop of the string case: the tokens it appends are STRING and ESCAPE tokens whose
  lexemes are the input from \<^verbatim>\<open>start\<close> up to the final \<^verbatim>\<open>start\<close>, and it stops at a
  double quote or at the end of the input.
\<close>

lemma string_loop_spec:
  assumes "string_loop s start i result = Inr (start', j, result')"
    and "start \<le> i" and "i \<le> length s"
  shows "\<exists>ts. result' = result @ ts \<and> start \<le> start' \<and> start' \<le> j \<and> i \<le> j \<and> j \<le> length s
           \<and> concat (map lexeme ts) = take (start' - start) (drop start s)
           \<and> (\<forall>t\<in>set ts. kind t = STRING \<or> kind t = ESCAPE)
           \<and> (ts \<noteq> [] \<longrightarrow> start < i \<longrightarrow> kind (hd ts) = STRING \<and> lexeme (hd ts) \<noteq> [])
           \<and> (j < length s \<longrightarrow> s ! j = dquote)"
  using assms
proof (induction s start i result rule: string_loop.induct)
  case (1 s start i result)
  note eq = "1.prems"(1) [unfolded string_loop.simps [of s start i result]]
  show ?case
  proof (cases "i < length s \<and> s ! i \<noteq> dquote")
    case False
    with eq have "start' = start" "j = i" "result' = result" by simp_all
    with False "1.prems"(2,3) show ?thesis by auto
  next
    case True
    note loop = True
    show ?thesis
    proof (cases "s ! i = backslash")
      case False
      with loop eq have rec: "string_loop s start (i + 1) result = Inr (start', j, result')"
        by simp
      from loop "1.prems"(2) have "start \<le> i + 1" "i + 1 \<le> length s" by simp_all
      from "1.IH"(3) [OF loop False rec this]
      obtain ts where ts: "result' = result @ ts" "start \<le> start'" "start' \<le> j" "i + 1 \<le> j"
        "j \<le> length s" "concat (map lexeme ts) = take (start' - start) (drop start s)"
        "\<forall>t\<in>set ts. kind t = STRING \<or> kind t = ESCAPE"
        "ts \<noteq> [] \<longrightarrow> start < i + 1 \<longrightarrow> kind (hd ts) = STRING \<and> lexeme (hd ts) \<noteq> []"
        "j < length s \<longrightarrow> s ! j = dquote"
        by blast
      from ts(8) "1.prems"(2)
      have "ts \<noteq> [] \<longrightarrow> start < i \<longrightarrow> kind (hd ts) = STRING \<and> lexeme (hd ts) \<noteq> []"
        by simp
      with ts show ?thesis by auto
    next
      case True
      define frag where "frag = tok STRING (take (i - start) (drop start s))"
      from loop True eq obtain result1 where
        r1: "append_slice result STRING s start i = Inr result1"
        by (auto split: sum.splits)
      then have result1: "result1 = result @ [frag]"
        by (simp add: append_slice_Inr frag_def)
      from loop True eq r1 have nxt: "i + 1 < length s"
        by (auto split: if_splits)
      have step: "\<exists>ts. result' = result @ ts \<and> start \<le> start' \<and> start' \<le> j \<and> i \<le> j \<and> j \<le> length s
           \<and> concat (map lexeme ts) = take (start' - start) (drop start s)
           \<and> (\<forall>t\<in>set ts. kind t = STRING \<or> kind t = ESCAPE)
           \<and> (ts \<noteq> [] \<longrightarrow> start < i \<longrightarrow> kind (hd ts) = STRING \<and> lexeme (hd ts) \<noteq> [])
           \<and> (j < length s \<longrightarrow> s ! j = dquote)"
        if r2: "append_slice result1 ESCAPE s i k = Inr result2"
          and ih: "k \<le> k \<Longrightarrow> k \<le> length s \<Longrightarrow>
             \<exists>ts. result' = result2 @ ts \<and> k \<le> start' \<and> start' \<le> j \<and> k \<le> j \<and> j \<le> length s
               \<and> concat (map lexeme ts) = take (start' - k) (drop k s)
               \<and> (\<forall>t\<in>set ts. kind t = STRING \<or> kind t = ESCAPE)
               \<and> (ts \<noteq> [] \<longrightarrow> k < k \<longrightarrow> kind (hd ts) = STRING \<and> lexeme (hd ts) \<noteq> [])
               \<and> (j < length s \<longrightarrow> s ! j = dquote)"
          and k: "i < k"
        for k result2
      proof -
        from r2 have kn: "k \<le> length s"
          and result2: "result2 = result1 @ [tok ESCAPE (take (k - i) (drop i s))]"
          by (simp_all add: append_slice_Inr)
        from ih [OF le_refl kn]
        obtain ts where ts: "result' = result2 @ ts" "k \<le> start'" "start' \<le> j" "k \<le> j"
          "j \<le> length s" "concat (map lexeme ts) = take (start' - k) (drop k s)"
          "\<forall>t\<in>set ts. kind t = STRING \<or> kind t = ESCAPE"
          "j < length s \<longrightarrow> s ! j = dquote"
          by blast
        let ?ts = "frag # tok ESCAPE (take (k - i) (drop i s)) # ts"
        have "take (i - start) (drop start s) @ take (k - i) (drop i s)
              = take (k - start) (drop start s)"
          using "1.prems"(2) k by (intro substring_join) simp_all
        moreover have "take (k - start) (drop start s) @ take (start' - k) (drop k s)
              = take (start' - start) (drop start s)"
          using "1.prems"(2) k ts(2) by (intro substring_join) simp_all
        ultimately have cc: "concat (map lexeme ?ts) = take (start' - start) (drop start s)"
          using ts(6) by (simp add: frag_def) (metis append.assoc)
        have hd: "start < i \<longrightarrow> kind (hd ?ts) = STRING \<and> lexeme (hd ?ts) \<noteq> []"
          using loop by (simp add: frag_def)
        have "result' = result @ ?ts"
          using ts(1) result2 result1 by simp
        moreover have "\<forall>t\<in>set ?ts. kind t = STRING \<or> kind t = ESCAPE"
          using ts(7) by (simp add: frag_def)
        ultimately show ?thesis
          using cc hd ts(2,3,4,5,8) k "1.prems"(2)
          by (intro exI [of _ ?ts]) (simp del: hd_Cons_tl list.sel)
      qed
      show ?thesis
      proof (cases "s ! (i + 1) = CHR ''u''")
        case u: True
        from loop True eq r1 nxt u obtain result2 where
          r2: "append_slice result1 ESCAPE s i (i + 1 + 5) = Inr result2"
          and rec: "string_loop s (i + 1 + 5) (i + 1 + 5) result2 = Inr (start', j, result')"
          by (auto split: sum.splits)
        show ?thesis
          by (rule step [OF r2 "1.IH"(1) [OF loop True r1 _ u r2 rec]]) (use nxt in simp_all)
      next
        case nu: False
        from loop True eq r1 nxt nu obtain result2 where
          r2: "append_slice result1 ESCAPE s i (i + 1 + 1) = Inr result2"
          and rec: "string_loop s (i + 1 + 1) (i + 1 + 1) result2 = Inr (start', j, result')"
          by (auto split: sum.splits)
        show ?thesis
          by (rule step [OF r2 "1.IH"(2) [OF loop True r1 _ nu r2 rec]]) (use nxt in simp_all)
      qed
    qed
  qed
qed

lemma letter_loop_le: "i \<le> length s \<Longrightarrow> letter_loop s i \<le> length s"
proof (induction s i rule: letter_loop.induct)
  case (1 s i)
  then show ?case by (subst letter_loop.simps) auto
qed

lemma number_loop_le: "i \<le> length s \<Longrightarrow> number_loop s i \<le> length s"
proof (induction s i rule: number_loop.induct)
  case (1 s i)
  then show ?case by (subst number_loop.simps) auto
qed

lemma letter_case_spec:
  assumes "i < length s" and "isLetter (s ! i)" and "letter_case s i result = Inr (j, result')"
  shows "\<exists>k. result' = result @ [tok k (take (j - i) (drop i s))]
           \<and> (k = TRUE \<or> k = FALSE \<or> k = NULL \<or> k = LETTER) \<and> i < j \<and> j \<le> length s"
  using assms(3) letter_loop_progress [OF assms(1,2)]
  by (auto simp: letter_case_def true_null_clause_def false_clause_def letter_clause_def
      append_slice_Inr slice_def Let_def split: if_splits sum.splits)

lemma run_bytes:
  assumes "\<forall>k. i \<le> k \<and> k < j \<longrightarrow> P (s ! k)" and "j \<le> length s"
  shows "\<forall>c\<in>set (take (j - i) (drop i s)). P c"
proof
  fix c
  assume "c \<in> set (take (j - i) (drop i s))"
  then obtain m where m: "m < length (take (j - i) (drop i s))" "c = take (j - i) (drop i s) ! m"
    by (auto simp: in_set_conv_nth)
  with assms(2) have "m < j - i" "c = s ! (i + m)" by simp_all
  with assms(1) show "P c" by simp
qed

lemma letter_loop_letters: "i \<le> k \<Longrightarrow> k < letter_loop s i \<Longrightarrow> isLetter (s ! k)"
proof (induction s i rule: letter_loop.induct)
  case (1 s i)
  note run = "1.prems"(2) [unfolded letter_loop.simps [of s i]]
  show ?case
  proof (cases "i < length s \<and> isLetter (s ! i)")
    case False
    with run "1.prems"(1) show ?thesis by simp
  next
    case True
    show ?thesis
    proof (cases "k = i")
      case True
      with \<open>i < length s \<and> isLetter (s ! i)\<close> show ?thesis by simp
    next
      case False
      with "1.prems"(1) have "i + 1 \<le> k" by simp
      moreover from run True have "k < letter_loop s (i + 1)" by simp
      ultimately show ?thesis using "1.IH" [OF True] by simp
    qed
  qed
qed

lemma number_loop_codes:
  "i \<le> k \<Longrightarrow> k < number_loop s i \<Longrightarrow> isValidNumberCode (s ! k)"
proof (induction s i rule: number_loop.induct)
  case (1 s i)
  note run = "1.prems"(2) [unfolded number_loop.simps [of s i]]
  show ?case
  proof (cases "i < length s \<and> isValidNumberCode (s ! i)")
    case False
    with run "1.prems"(1) show ?thesis by simp
  next
    case True
    show ?thesis
    proof (cases "k = i")
      case True
      with \<open>i < length s \<and> isValidNumberCode (s ! i)\<close> show ?thesis by simp
    next
      case False
      with "1.prems"(1) have "i + 1 \<le> k" by simp
      moreover from run True have "k < number_loop s (i + 1)" by simp
      ultimately show ?thesis using "1.IH" [OF True] by simp
    qed
  qed
qed

lemma keyword_letters:
  "\<forall>c\<in>set ''true''. isLetter c" "\<forall>c\<in>set ''null''. isLetter c" "\<forall>c\<in>set ''false''. isLetter c"
  by (simp_all add: isLetter_def)

lemma letter_case_letters:
  assumes "i < length s" and "isLetter (s ! i)" and "letter_case s i result = Inr (j, result')"
  shows "\<forall>c\<in>set (take (j - i) (drop i s)). isLetter c"
proof -
  have run: "\<forall>c\<in>set (take (letter_loop s i - i) (drop i s)). isLetter c"
    using letter_loop_letters [of i _ s] letter_loop_le [of i s] assms(1)
    by (intro run_bytes) simp_all
  from assms(3) consider "j = i + 4" "take 4 (drop i s) = ''true''"
    | "j = i + 4" "take 4 (drop i s) = ''null''"
    | "j = i + 5" "take 5 (drop i s) = ''false''"
    | "j = letter_loop s i"
    by (auto simp: letter_case_def true_null_clause_def false_clause_def letter_clause_def
        append_slice_Inr slice_def Let_def split: if_splits sum.splits)
  then show ?thesis
  proof cases
    case 1
    with keyword_letters(1) show ?thesis by simp
  next
    case 2
    with keyword_letters(2) show ?thesis by simp
  next
    case 3
    with keyword_letters(3) show ?thesis by simp
  next
    case 4
    with run show ?thesis by simp
  qed
qed

text \<open>The outcomes of one iteration of the main loop, one case for each case of the switch.\<close>

lemma scan_step_cases [consumes 2, case_names space lbrace rbrace lbracket rbracket
    object_comma array_comma colon string word number unknown]:
  assumes "i < length s" and "scan_step s i b result = Inr (j, b', result')"
  obtains
    (space) "s ! i = CHR '' ''" "j = i + 1" "b' = b" "result' = result"
  | (lbrace) "s ! i = CHR ''{''" "j = i + 1" "b' = b" "result' = result @ [tok LEFT_BRACE ''{'']"
  | (rbrace) "s ! i = CHR ''}''" "j = i + 1" "b' = b" "result' = result @ [tok RIGHT_BRACE ''}'']"
  | (lbracket) "s ! i = CHR ''[''" "j = i + 1" "b' = (\<not> b)"
      "result' = result @ [tok LEFT_BRACKET ''['']"
  | (rbracket) "s ! i = CHR '']''" "j = i + 1" "b' = (\<not> b)"
      "result' = result @ [tok RIGHT_BRACKET '']'']"
  | (object_comma) "s ! i = CHR '',''" "\<not> b" "j = i + 1" "b' = b"
      "result' = result @ [tok OBJECT_COMMA '','']"
  | (array_comma) "s ! i = CHR '',''" "b" "j = i + 1" "b' = b"
      "result' = result @ [tok ARRAY_COMMA '','']"
  | (colon) "s ! i = CHR '':''" "j = i + 1" "b' = b" "result' = result @ [tok COLON '':'']"
  | (string) start m ts where "s ! i = dquote" "b' = b" "j = m + 1" "j \<le> length s"
      "string_loop s i (i + 1) result = Inr (start, m, result @ ts)"
      "result' = result @ ts @ [tok STRING (take (j - start) (drop start s))]"
      "i \<le> start" "start \<le> m" "i < m" "s ! m = dquote"
      "concat (map lexeme ts) = take (start - i) (drop i s)"
      "\<forall>t\<in>set ts. kind t = STRING \<or> kind t = ESCAPE"
      "ts \<noteq> [] \<longrightarrow> kind (hd ts) = STRING \<and> lexeme (hd ts) \<noteq> []"
  | (word) k where "isLetter (s ! i)" "b' = b" "i < j" "j \<le> length s"
      "result' = result @ [tok k (take (j - i) (drop i s))]"
      "k = TRUE \<or> k = FALSE \<or> k = NULL \<or> k = LETTER"
      "\<forall>c\<in>set (take (j - i) (drop i s)). isLetter c"
  | (number) "s ! i = CHR ''-'' \<or> isDigit (s ! i)" "b' = b" "i < j" "j \<le> length s"
      "result' = result @ [tok NUMBER (take (j - i) (drop i s))]"
      "\<forall>c\<in>set (take (j - i) (drop i s)). isValidNumberCode c"
  | (unknown) "s ! i \<noteq> CHR '' ''" "s ! i \<noteq> CHR ''{''" "s ! i \<noteq> CHR ''}''" "s ! i \<noteq> CHR ''[''"
      "s ! i \<noteq> CHR '']''" "s ! i \<noteq> CHR '',''" "s ! i \<noteq> CHR '':''" "s ! i \<noteq> dquote"
      "\<not> isLetter (s ! i)" "s ! i \<noteq> CHR ''-''" "\<not> isDigit (s ! i)"
      "j = i + 1" "b' = b" "result' = result @ [tok UNKNOWN (string_of_byte (s ! i))]"
proof -
  note eq = assms(2) [unfolded scan_step_def]
  consider "s ! i = CHR '' ''" | "s ! i = CHR ''{''" | "s ! i = CHR ''}''" | "s ! i = CHR ''[''"
    | "s ! i = CHR '']''" | "s ! i = CHR '',''" | "s ! i = CHR '':''" | "s ! i = dquote"
    | "isLetter (s ! i)" | "\<not> isLetter (s ! i)" "s ! i = CHR ''-'' \<or> isDigit (s ! i)"
    | "s ! i \<noteq> CHR '' ''" "s ! i \<noteq> CHR ''{''" "s ! i \<noteq> CHR ''}''" "s ! i \<noteq> CHR ''[''"
      "s ! i \<noteq> CHR '']''" "s ! i \<noteq> CHR '',''" "s ! i \<noteq> CHR '':''" "s ! i \<noteq> dquote"
      "\<not> isLetter (s ! i)" "s ! i \<noteq> CHR ''-''" "\<not> isDigit (s ! i)"
    by blast
  then show thesis
  proof cases
    case 1
    with eq show ?thesis by (intro space) simp_all
  next
    case 2
    with eq show ?thesis by (intro lbrace) simp_all
  next
    case 3
    with eq show ?thesis by (intro rbrace) simp_all
  next
    case 4
    with eq show ?thesis by (intro lbracket) auto
  next
    case 5
    with eq show ?thesis by (intro rbracket) auto
  next
    case 6
    show ?thesis
    proof (cases b)
      case True
      with 6 eq show ?thesis by (intro array_comma) simp_all
    next
      case False
      with 6 eq show ?thesis by (intro object_comma) simp_all
    qed
  next
    case 7
    with eq show ?thesis by (intro colon) simp_all
  next
    case 8
    with eq obtain start m result1 where
      sl: "string_loop s i (i + 1) result = Inr (start, m, result1)"
      and fin: "append_slice result1 STRING s start (m + 1) = Inr result'"
      and jb: "j = m + 1" "b' = b"
      by (auto split: sum.splits)
    from string_loop_spec [OF sl] assms(1)
    obtain ts where ts: "result1 = result @ ts" "i \<le> start" "start \<le> m" "i + 1 \<le> m"
      "m \<le> length s" "concat (map lexeme ts) = take (start - i) (drop i s)"
      "\<forall>t\<in>set ts. kind t = STRING \<or> kind t = ESCAPE"
      "ts \<noteq> [] \<longrightarrow> kind (hd ts) = STRING \<and> lexeme (hd ts) \<noteq> []"
      "m < length s \<longrightarrow> s ! m = dquote"
      by auto
    from fin have m: "m + 1 \<le> length s"
      and r': "result' = result1 @ [tok STRING (take (m + 1 - start) (drop start s))]"
      by (simp_all add: append_slice_Inr)
    show ?thesis
      using 8 jb sl ts m r' by (intro string [of m start ts]) simp_all
  next
    case 9
    with eq isLetter_not_special [OF 9] have
      lc: "letter_case s i result = Inr (j, result')" and bb: "b' = b"
      by (auto split: sum.splits)
    from letter_case_spec [OF assms(1) 9 lc] letter_case_letters [OF assms(1) 9 lc] bb 9
    show ?thesis
      by (auto intro: word)
  next
    case 10
    then have ns: "s ! i \<noteq> CHR '' ''" "s ! i \<noteq> CHR ''{''" "s ! i \<noteq> CHR ''}''" "s ! i \<noteq> CHR ''[''"
      "s ! i \<noteq> CHR '']''" "s ! i \<noteq> CHR '',''" "s ! i \<noteq> CHR '':''" "s ! i \<noteq> dquote"
      using isDigit_not_special [of "s ! i"] by auto
    from 10 have "isValidNumberCode (s ! i)"
      by (auto simp: isValidNumberCode_def)
    from number_loop_progress [OF assms(1) this] number_loop_le [of i s] assms(1)
    have nl: "i < number_loop s i" "number_loop s i \<le> length s" by simp_all
    have codes: "\<forall>c\<in>set (take (number_loop s i - i) (drop i s)). isValidNumberCode c"
      using number_loop_codes [of i _ s] nl(2) by (intro run_bytes) simp_all
    from eq ns 10 nl have j: "j = number_loop s i"
      by (auto simp: Let_def append_slice_Inr split: sum.splits)
    from eq ns 10 nl codes j show ?thesis
      by (intro number) (auto simp: Let_def append_slice_Inr split: sum.splits)
  next
    case 11
    with eq show ?thesis by (intro unknown) simp_all
  qed
qed

section \<open>The comma toggle\<close>






section \<open>The lexemes and the input\<close>

lemma skipped_spaces_range:
  "k \<in> set (skipped_spaces s i b result) \<Longrightarrow> i \<le> k \<and> k < length s \<and> s ! k = CHR '' ''"
proof (induction s i b result rule: skipped_spaces.induct)
  case (1 s i b result)
  note mem = "1.prems" [unfolded skipped_spaces.simps [of s i b result]]
  show ?case
  proof (cases "i < length s")
    case False
    with mem show ?thesis by simp
  next
    case True
    with mem obtain x where x: "scan_step s i b result = Inr x"
      by (cases "scan_step s i b result") simp_all
    obtain j b' result' where x3: "x = (j, b', result')"
      by (cases x) auto
    from x x3 have st: "scan_step s i b result = Inr (j, b', result')" by simp
    from mem True st
    have k: "k \<in> set ((if s ! i = CHR '' '' then [i] else []) @ skipped_spaces s j b' result')"
      by simp
    from scan_step_progress [OF True st] have ij: "i < j" .
    show ?thesis
    proof (cases "k \<in> set (skipped_spaces s j b' result')")
      case True
      from "1.IH" [OF \<open>i < length s\<close> st refl refl True] ij show ?thesis by simp
    next
      case False
      with k have "k = i" "s ! i = CHR '' ''" by (auto split: if_splits)
      with \<open>i < length s\<close> show ?thesis by simp
    qed
  qed
qed

lemma map_nth_upt_substring:
  "j \<le> length s \<Longrightarrow> map ((!) s) [i..<j] = take (j - i) (drop i s)"
  by (rule nth_equalityI) simp_all

lemma upt_split: "i \<le> j \<Longrightarrow> j \<le> n \<Longrightarrow> [i..<n] = [i..<j] @ [j..<n]"
  using upt_add_eq_append [of i j "n - j"] by simp

lemma string_of_byte_single: "length (string_of_byte c) = Suc 0 \<Longrightarrow> string_of_byte c = [c]"
  by (simp add: string_of_byte_def Let_def split: if_splits)

lemma space_plain: "\<not> isLetter CHR '' ''" "\<not> isDigit CHR '' ''"
  by (simp_all add: isLetter_def isDigit_def)

text \<open>
  One iteration either skips a space or appends tokens whose lexemes are the input it
  consumed, as long as the UNKNOWN token it may append has a lexeme of one byte.
\<close>

lemma scan_step_lexemes:
  assumes "i < length s" and "scan_step s i b result = Inr (j, b', result')"
  shows "\<exists>ts. result' = result @ ts \<and> i < j \<and> j \<le> length s
           \<and> (s ! i = CHR '' '' \<longrightarrow> ts = [] \<and> j = i + 1)
           \<and> (s ! i \<noteq> CHR '' '' \<longrightarrow> (\<forall>t\<in>set ts. kind t = UNKNOWN \<longrightarrow> length (lexeme t) = 1) \<longrightarrow>
                 concat (map lexeme ts) = take (j - i) (drop i s))"
proof -
  have one: "take (Suc 0) (drop i s) = [s ! i]"
    using assms(1) by (simp add: take_Suc_conv_app_nth [of 0] hd_drop_conv_nth)
  from assms show ?thesis
  proof (cases rule: scan_step_cases)
    case (string start m ts)
    have "take (start - i) (drop i s) @ take (j - start) (drop start s) = take (j - i) (drop i s)"
      using string(3,7,8) by (intro substring_join) simp_all
    with string show ?thesis by auto
  next
    case unknown
    then show ?thesis
      using assms(1) one by (auto dest: string_of_byte_single)
  qed (use assms(1) one space_plain in auto)
qed

lemma scan_loop_lexemes:
  assumes "scan_loop s i b result = Inr toks"
  shows "\<exists>ts. toks = result @ ts
           \<and> ((\<forall>t\<in>set ts. kind t = UNKNOWN \<longrightarrow> length (lexeme t) = 1) \<longrightarrow>
                concat (map lexeme ts) =
                  map ((!) s) (filter (\<lambda>k. k \<notin> set (skipped_spaces s i b result)) [i..<length s]))"
  using assms
proof (induction s i b result rule: scan_loop.induct)
  case (1 s i b result)
  note eq = "1.prems"(1) [unfolded scan_loop.simps [of s i b result]]
  show ?case
  proof (cases "i < length s")
    case False
    with eq show ?thesis by simp
  next
    case True
    with eq obtain j b' result' where
      st: "scan_step s i b result = Inr (j, b', result')"
      and rec: "scan_loop s j b' result' = Inr toks"
      by (auto split: sum.splits)
    let ?sp = "if s ! i = CHR '' '' then [i] else []"
    let ?K2 = "skipped_spaces s j b' result'"
    have K: "skipped_spaces s i b result = ?sp @ ?K2"
      using True st by (subst skipped_spaces.simps) simp
    from scan_step_lexemes [OF True st] obtain ts1 where
      ts1: "result' = result @ ts1" "i < j" "j \<le> length s"
        "s ! i = CHR '' '' \<longrightarrow> ts1 = [] \<and> j = i + 1"
        "s ! i \<noteq> CHR '' '' \<longrightarrow> (\<forall>t\<in>set ts1. kind t = UNKNOWN \<longrightarrow> length (lexeme t) = 1) \<longrightarrow>
           concat (map lexeme ts1) = take (j - i) (drop i s)"
      by blast
    from "1.IH" [OF True st refl refl rec] obtain ts2 where
      ts2: "toks = result' @ ts2"
        "(\<forall>t\<in>set ts2. kind t = UNKNOWN \<longrightarrow> length (lexeme t) = 1) \<longrightarrow>
           concat (map lexeme ts2) = map ((!) s) (filter (\<lambda>k. k \<notin> set ?K2) [j..<length s])"
      by blast
    have tail: "filter (\<lambda>k. k \<notin> set (?sp @ ?K2)) [j..<length s]
                = filter (\<lambda>k. k \<notin> set ?K2) [j..<length s]"
      using ts1(2) by (intro filter_cong) auto
    have ge: "j \<le> k" if "k \<in> set ?K2" for k
      using skipped_spaces_range [OF that] by simp
    have head: "filter (\<lambda>k. k \<notin> set (?sp @ ?K2)) [i..<j] = filter (\<lambda>k. k \<notin> set ?sp) [i..<j]"
      by (intro filter_cong) (use ge in fastforce)+
    have split: "filter (\<lambda>k. k \<notin> set (?sp @ ?K2)) [i..<length s]
                 = filter (\<lambda>k. k \<notin> set ?sp) [i..<j] @ filter (\<lambda>k. k \<notin> set ?K2) [j..<length s]"
      using upt_split [of i j "length s"] ts1(2,3) head tail by simp
    have "concat (map lexeme (ts1 @ ts2)) =
            map ((!) s) (filter (\<lambda>k. k \<notin> set (skipped_spaces s i b result)) [i..<length s])"
      if unk: "\<forall>t\<in>set (ts1 @ ts2). kind t = UNKNOWN \<longrightarrow> length (lexeme t) = 1"
    proof -
      from unk ts2(2) have c2: "concat (map lexeme ts2)
          = map ((!) s) (filter (\<lambda>k. k \<notin> set ?K2) [j..<length s])"
        by simp
      have c1: "concat (map lexeme ts1) = map ((!) s) (filter (\<lambda>k. k \<notin> set ?sp) [i..<j])"
      proof (cases "s ! i = CHR '' ''")
        case True
        with ts1(4) show ?thesis by simp
      next
        case False
        with unk ts1(5) have "concat (map lexeme ts1) = take (j - i) (drop i s)" by simp
        with False map_nth_upt_substring [OF ts1(3), of i] show ?thesis by simp
      qed
      from c1 c2 show ?thesis unfolding K split by simp
    qed
    with ts1(1) ts2(1) show ?thesis by (intro exI [of _ "ts1 @ ts2"]) simp
  qed
qed

text \<open>
  C4. The two bytes C3 A9 (the UTF-8 text of one accented letter, outside any string)
  hold no space, and the lexemes of the tokens returned are three bytes: the second
  byte, not a letter, becomes an UNKNOWN token whose lexeme \<^verbatim>\<open>string(s[i])\<close> is the
  UTF-8 encoding of the code point A9, not the byte of the input. Every other case of
  the scanner takes its lexeme from the input.
\<close>

theorem C4_unknown_lexeme_not_input_byte:
  "scan [CHR 0xC3, CHR 0xA9] = Inr [tok LETTER [CHR 0xC3], tok UNKNOWN [CHR 0xC2, CHR 0xA9]]
   \<and> skipped_spaces [CHR 0xC3, CHR 0xA9] 0 False [] = []
   \<and> concat (map lexeme (projr (scan [CHR 0xC3, CHR 0xA9]))) \<noteq> [CHR 0xC3, CHR 0xA9]"
proof -
  have sc: "scan [CHR 0xC3, CHR 0xA9] = Inr [tok LETTER [CHR 0xC3], tok UNKNOWN [CHR 0xC2, CHR 0xA9]]"
    by code_simp
  have sk: "skipped_spaces [CHR 0xC3, CHR 0xA9] 0 False [] = []"
    by code_simp
  from sc sk show ?thesis by simp
qed

text \<open>
  Apart from that case the lexemes are the input: when \<^verbatim>\<open>scan\<close> returns and every
  UNKNOWN token has a lexeme of one byte, the lexemes in order are the input without
  the bytes at the skipped positions, and every skipped position holds a plain space.
\<close>

lemma lexemes_reconstruct_input:
  assumes "scan s = Inr toks"
    and "\<forall>t\<in>set toks. kind t = UNKNOWN \<longrightarrow> length (lexeme t) = 1"
  shows "concat (map lexeme toks) =
           map ((!) s) (filter (\<lambda>k. k \<notin> set (skipped_spaces s 0 False [])) [0..<length s])
         \<and> (\<forall>k\<in>set (skipped_spaces s 0 False []). k < length s \<and> s ! k = CHR '' '')"
  using scan_loop_lexemes [of s 0 False "[]" toks] assms skipped_spaces_range [of _ s 0 False "[]"]
  by (auto simp: scan_def)

section \<open>The scanner follows the regions\<close>

lemma substring_snoc:
  assumes "start \<le> i" and "i < length s"
  shows "take (i - start) (drop start s) @ [s ! i] = take (i + 1 - start) (drop start s)"
proof -
  have "take (Suc (i - start)) (drop start s)
          = take (i - start) (drop start s) @ [drop start s ! (i - start)]"
    using assms by (intro take_Suc_conv_app_nth) simp
  moreover have "drop start s ! (i - start) = s ! i" using assms by simp
  moreover have "Suc (i - start) = i + 1 - start" using assms by simp
  ultimately show ?thesis by simp
qed

lemma drop_cons: "i < length s \<Longrightarrow> drop i s = s ! i # drop (i + 1) s"
  by (simp add: Cons_nth_drop_Suc)

text \<open>
  When the loop of the string case stops before the end of the input, the tokens it has
  appended, with the final STRING token, are those of the region, and the text after
  the closing quote is the rest of the input.
\<close>

lemma string_loop_literal:
  assumes "string_loop s start i result = Inr (start', m, result')"
    and "start \<le> i" and "i \<le> length s" and "m < length s"
  shows "\<exists>ts. result' = result @ ts
           \<and> literal_spec (take (i - start) (drop start s)) (drop i s)
               = Some (ts @ [tok STRING (take (m + 1 - start') (drop start' s))], drop (m + 1) s)"
  using assms
proof (induction s start i result rule: string_loop.induct)
  case (1 s start i result)
  note eq = "1.prems"(1) [unfolded string_loop.simps [of s start i result]]
  let ?frag = "take (i - start) (drop start s)"
  show ?case
  proof (cases "i < length s \<and> s ! i \<noteq> dquote")
    case False
    with eq have e: "start' = start" "m = i" "result' = result" by simp_all
    with False "1.prems"(4) have q: "i < length s" "s ! i = dquote" by simp_all
    have "literal_spec ?frag (drop i s) = Some ([tok STRING (?frag @ [s ! i])], drop (i + 1) s)"
      using q by (simp add: drop_cons [OF q(1)])
    with e substring_snoc [OF "1.prems"(2) q(1)] show ?thesis by simp
  next
    case True
    note loop = True
    then have il: "i < length s" by simp
    show ?thesis
    proof (cases "s ! i = backslash")
      case False
      with loop eq have rec: "string_loop s start (i + 1) result = Inr (start', m, result')"
        by simp
      from loop "1.prems"(2) have "start \<le> i + 1" "i + 1 \<le> length s" by simp_all
      from "1.IH"(3) [OF loop False rec this "1.prems"(4)]
      obtain ts where ts: "result' = result @ ts"
        "literal_spec (take (i + 1 - start) (drop start s)) (drop (i + 1) s)
           = Some (ts @ [tok STRING (take (m + 1 - start') (drop start' s))], drop (m + 1) s)"
        by blast
      have "literal_spec ?frag (drop i s) = literal_spec (?frag @ [s ! i]) (drop (i + 1) s)"
        using loop False by (simp add: drop_cons [OF il])
      with ts substring_snoc [OF "1.prems"(2) il] show ?thesis by simp
    next
      case True
      from loop True eq obtain result1 where
        r1: "append_slice result STRING s start i = Inr result1"
        by (auto split: sum.splits)
      then have result1: "result1 = result @ [tok STRING ?frag]"
        by (simp add: append_slice_Inr)
      from loop True eq r1 have nxt: "i + 1 < length s"
        by (auto split: if_splits)
      have di: "drop i s = backslash # s ! (i + 1) # drop (i + 2) s"
        using drop_cons [OF il] drop_cons [OF nxt] True by simp
      show ?thesis
      proof (cases "s ! (i + 1) = CHR ''u''")
        case u: True
        from loop True eq r1 nxt u obtain result2 where
          r2: "append_slice result1 ESCAPE s i (i + 1 + 5) = Inr result2"
          and rec: "string_loop s (i + 1 + 5) (i + 1 + 5) result2 = Inr (start', m, result')"
          by (auto split: sum.splits)
        from r2 have six: "i + 6 \<le> length s"
          and result2: "result2 = result1 @ [tok ESCAPE (take 6 (drop i s))]"
          by (simp_all add: append_slice_Inr)
        from "1.IH"(1) [OF loop True r1 _ u r2 rec] nxt six "1.prems"(4)
        obtain ts where ts: "result' = result2 @ ts"
          "literal_spec [] (drop (i + 6) s)
             = Some (ts @ [tok STRING (take (m + 1 - start') (drop start' s))], drop (m + 1) s)"
          by (auto simp: ac_simps)
        have esc: "take 6 (drop i s) = backslash # CHR ''u'' # take 4 (drop (i + 2) s)"
          using di u by (simp add: numeral_eq_Suc)
        have "literal_spec ?frag (drop i s)
            = Some (tok STRING ?frag # tok ESCAPE (take 6 (drop i s)) # ts
                      @ [tok STRING (take (m + 1 - start') (drop start' s))], drop (m + 1) s)"
          using six ts(2) u esc by (simp add: di ac_simps)
        with ts(1) result2 result1 show ?thesis by simp
      next
        case nu: False
        from loop True eq r1 nxt nu obtain result2 where
          r2: "append_slice result1 ESCAPE s i (i + 1 + 1) = Inr result2"
          and rec: "string_loop s (i + 1 + 1) (i + 1 + 1) result2 = Inr (start', m, result')"
          by (auto split: sum.splits)
        from r2 have result2: "result2 = result1 @ [tok ESCAPE (take 2 (drop i s))]"
          by (simp add: append_slice_Inr)
        from "1.IH"(2) [OF loop True r1 _ nu r2 rec] nxt "1.prems"(4)
        obtain ts where ts: "result' = result2 @ ts"
          "literal_spec [] (drop (i + 2) s)
             = Some (ts @ [tok STRING (take (m + 1 - start') (drop start' s))], drop (m + 1) s)"
          by (auto simp: ac_simps)
        have esc: "take 2 (drop i s) = [backslash, s ! (i + 1)]"
          using di by (simp add: numeral_eq_Suc)
        have "literal_spec ?frag (drop i s)
            = Some (tok STRING ?frag # tok ESCAPE (take 2 (drop i s)) # ts
                      @ [tok STRING (take (m + 1 - start') (drop start' s))], drop (m + 1) s)"
          using ts(2) nu esc by (simp add: di)
        with ts(1) result2 result1 show ?thesis by simp
      qed
    qed
  qed
qed

lemma regions_plain:
  "dquote \<notin> set w \<Longrightarrow> regions_spec (w @ cs) = map_option ((@) (map Outside w)) (regions_spec cs)"
  by (cases "regions_spec cs"; induction w) auto

lemma structural_tokens_plain:
  "\<forall>c\<in>set w. c \<noteq> CHR ''{'' \<and> c \<noteq> CHR ''}'' \<and> c \<noteq> CHR ''['' \<and> c \<noteq> CHR '']'' \<and> c \<noteq> CHR '',''
       \<and> c \<noteq> CHR '':'' \<Longrightarrow>
   structural_tokens_spec b (w @ cs) = structural_tokens_spec b cs"
  by (induction w) simp_all

lemma outside_chars_append: "outside_chars (rs @ rs') = outside_chars rs @ outside_chars rs'"
  by (induction rs rule: outside_chars.induct) simp_all

lemma literal_groups_append: "literal_groups (rs @ rs') = literal_groups rs @ literal_groups rs'"
  by (induction rs rule: literal_groups.induct) simp_all

lemma outside_chars_map: "outside_chars (map Outside w) = w"
  by (induction w) simp_all

lemma literal_groups_map: "literal_groups (map Outside w) = []"
  by (induction w) simp_all

lemma number_code_plain:
  "isValidNumberCode c \<Longrightarrow> c \<noteq> dquote \<and> c \<noteq> CHR ''{'' \<and> c \<noteq> CHR ''}'' \<and> c \<noteq> CHR ''[''
     \<and> c \<noteq> CHR '']'' \<and> c \<noteq> CHR '','' \<and> c \<noteq> CHR '':''"
  using isDigit_not_special [of c] by (auto simp: isValidNumberCode_def)

text \<open>
  One iteration of the main loop consumes one or more whole regions: the tokens it
  appends are the structural tokens of the bytes outside strings and the tokens of the
  string region it has read.
\<close>

lemma scan_step_regions:
  assumes "i < length s" and "scan_step s i b result = Inr (j, b', result')"
  shows "\<exists>ts rs0. result' = result @ ts \<and> i < j \<and> j \<le> length s
           \<and> (\<forall>rs'. regions_spec (drop j s) = Some rs' \<longrightarrow> regions_spec (drop i s) = Some (rs0 @ rs'))
           \<and> (\<forall>cs. structural_tokens_spec b (outside_chars rs0 @ cs)
                    = filter (\<lambda>t. structural_kind (kind t)) ts @ structural_tokens_spec b' cs)
           \<and> filter (\<lambda>t. string_kind (kind t)) ts = concat (literal_groups rs0)"
proof -
  have one: "\<exists>ts rs0. result' = result @ ts \<and> i < j \<and> j \<le> length s
           \<and> (\<forall>rs'. regions_spec (drop j s) = Some rs' \<longrightarrow> regions_spec (drop i s) = Some (rs0 @ rs'))
           \<and> (\<forall>cs. structural_tokens_spec b (outside_chars rs0 @ cs)
                    = filter (\<lambda>t. structural_kind (kind t)) ts @ structural_tokens_spec b' cs)
           \<and> filter (\<lambda>t. string_kind (kind t)) ts = concat (literal_groups rs0)"
    if "j = i + 1" "result' = result @ ts" "s ! i \<noteq> dquote"
      "\<forall>cs. structural_tokens_spec b (s ! i # cs)
            = filter (\<lambda>t. structural_kind (kind t)) ts @ structural_tokens_spec b' cs"
      "filter (\<lambda>t. string_kind (kind t)) ts = []"
    for ts
  proof -
    have "regions_spec (drop i s) = Some ([Outside (s ! i)] @ rs')" if "regions_spec (drop j s) = Some rs'"
      for rs'
      using that \<open>j = i + 1\<close> \<open>s ! i \<noteq> dquote\<close> by (simp add: drop_cons [OF assms(1)])
    with that assms(1) show ?thesis
      by (intro exI [of _ ts] exI [of _ "[Outside (s ! i)]"]) simp
  qed
  have run: "\<exists>ts rs0. result' = result @ ts \<and> i < j \<and> j \<le> length s
           \<and> (\<forall>rs'. regions_spec (drop j s) = Some rs' \<longrightarrow> regions_spec (drop i s) = Some (rs0 @ rs'))
           \<and> (\<forall>cs. structural_tokens_spec b (outside_chars rs0 @ cs)
                    = filter (\<lambda>t. structural_kind (kind t)) ts @ structural_tokens_spec b' cs)
           \<and> filter (\<lambda>t. string_kind (kind t)) ts = concat (literal_groups rs0)"
    if "b' = b" "i < j" "j \<le> length s" "result' = result @ [tok k (take (j - i) (drop i s))]"
      "\<not> structural_kind k" "\<not> string_kind k"
      "\<forall>c\<in>set (take (j - i) (drop i s)). c \<noteq> dquote \<and> c \<noteq> CHR ''{'' \<and> c \<noteq> CHR ''}''
          \<and> c \<noteq> CHR ''['' \<and> c \<noteq> CHR '']'' \<and> c \<noteq> CHR '','' \<and> c \<noteq> CHR '':''"
    for k
  proof -
    let ?w = "take (j - i) (drop i s)"
    have split: "drop i s = ?w @ drop j s"
      using that(2,3) by (metis append_take_drop_id drop_drop le_add_diff_inverse2 less_imp_le_nat)
    have q: "dquote \<notin> set ?w" using that(7) by blast
    have "regions_spec (drop i s) = Some (map Outside ?w @ rs')" if "regions_spec (drop j s) = Some rs'"
      for rs'
      using regions_plain [OF q, of "drop j s"] that split by simp
    moreover have "structural_tokens_spec b (outside_chars (map Outside ?w) @ cs)
        = filter (\<lambda>t. structural_kind (kind t)) [tok k ?w] @ structural_tokens_spec b' cs" for cs
      using structural_tokens_plain [of ?w b cs] that(1,5,7) by (simp add: outside_chars_map)
    moreover have "filter (\<lambda>t. string_kind (kind t)) [tok k ?w]
        = concat (literal_groups (map Outside ?w))"
      using that(6) by (simp add: literal_groups_map)
    ultimately show ?thesis
      using that(2,3,4) by (intro exI [of _ "[tok k ?w]"] exI [of _ "map Outside ?w"]) blast
  qed
  from assms show ?thesis
  proof (cases rule: scan_step_cases)
    case space
    then show ?thesis by (intro one [of "[]"]) simp_all
  next
    case lbrace
    then show ?thesis
      by (intro one [of "[tok LEFT_BRACE ''{'']"]) (simp_all add: structural_kind_def string_kind_def)
  next
    case rbrace
    then show ?thesis
      by (intro one [of "[tok RIGHT_BRACE ''}'']"]) (simp_all add: structural_kind_def string_kind_def)
  next
    case lbracket
    then show ?thesis
      by (intro one [of "[tok LEFT_BRACKET ''['']"]) (simp_all add: structural_kind_def string_kind_def)
  next
    case rbracket
    then show ?thesis
      by (intro one [of "[tok RIGHT_BRACKET '']'']"]) (simp_all add: structural_kind_def string_kind_def)
  next
    case object_comma
    then show ?thesis
      by (intro one [of "[tok OBJECT_COMMA '','']"]) (simp_all add: structural_kind_def string_kind_def)
  next
    case array_comma
    then show ?thesis
      by (intro one [of "[tok ARRAY_COMMA '','']"]) (simp_all add: structural_kind_def string_kind_def)
  next
    case colon
    then show ?thesis
      by (intro one [of "[tok COLON '':'']"]) (simp_all add: structural_kind_def string_kind_def)
  next
    case unknown
    then show ?thesis
      by (intro one [of "[tok UNKNOWN (string_of_byte (s ! i))]"])
        (simp_all add: structural_kind_def string_kind_def)
  next
    case (word k)
    from word(7) have "\<forall>c\<in>set (take (j - i) (drop i s)). c \<noteq> dquote \<and> c \<noteq> CHR ''{'' \<and> c \<noteq> CHR ''}''
          \<and> c \<noteq> CHR ''['' \<and> c \<noteq> CHR '']'' \<and> c \<noteq> CHR '','' \<and> c \<noteq> CHR '':''"
      using isLetter_not_special by blast
    with word show ?thesis
      by (intro run [of k]) (auto simp: structural_kind_def string_kind_def)
  next
    case number
    from number(6) have "\<forall>c\<in>set (take (j - i) (drop i s)). c \<noteq> dquote \<and> c \<noteq> CHR ''{'' \<and> c \<noteq> CHR ''}''
          \<and> c \<noteq> CHR ''['' \<and> c \<noteq> CHR '']'' \<and> c \<noteq> CHR '','' \<and> c \<noteq> CHR '':''"
      using number_code_plain by blast
    with number show ?thesis
      by (intro run [of NUMBER]) (auto simp: structural_kind_def string_kind_def)
  next
    case (string start m ts)
    let ?fin = "tok STRING (take (j - start) (drop start s))"
    let ?g = "ts @ [?fin]"
    from string(3,4) have m: "m < length s" by simp
    from string_loop_literal [OF string(5) _ _ m] assms(1)
    obtain ts' where "result @ ts = result @ ts'"
      "literal_spec (take (i + 1 - i) (drop i s)) (drop (i + 1) s)
         = Some (ts' @ [tok STRING (take (m + 1 - start) (drop start s))], drop (m + 1) s)"
      by auto
    moreover have "take (i + 1 - i) (drop i s) = [dquote]"
      using string(1) by (simp add: drop_cons [OF assms(1)])
    ultimately have lit: "literal_spec [dquote] (drop (i + 1) s) = Some (?g, drop j s)"
      using string(3) by simp
    have "regions_spec (drop i s) = Some ([Literal ?g] @ rs')" if "regions_spec (drop j s) = Some rs'" for rs'
      using that lit string(1) by (simp add: drop_cons [OF assms(1)])
    moreover have "filter (\<lambda>t. structural_kind (kind t)) ?g = []"
      "filter (\<lambda>t. string_kind (kind t)) ?g = ?g"
      using string(12) by (auto simp: structural_kind_def string_kind_def filter_empty_conv filter_id_conv)
    ultimately show ?thesis
      using string(2,3,4,6,9)
      by (intro exI [of _ ?g] exI [of _ "[Literal ?g]"]) simp
  qed
qed

lemma scan_loop_regions:
  assumes "scan_loop s i b result = Inr toks" and "i \<le> length s"
  shows "\<exists>ts rs. toks = result @ ts \<and> regions_spec (drop i s) = Some rs
           \<and> filter (\<lambda>t. structural_kind (kind t)) ts = structural_tokens_spec b (outside_chars rs)
           \<and> filter (\<lambda>t. string_kind (kind t)) ts = concat (literal_groups rs)"
  using assms
proof (induction s i b result rule: scan_loop.induct)
  case (1 s i b result)
  note eq = "1.prems"(1) [unfolded scan_loop.simps [of s i b result]]
  show ?case
  proof (cases "i < length s")
    case False
    with eq "1.prems"(2) show ?thesis by simp
  next
    case True
    with eq obtain j b' result' where
      st: "scan_step s i b result = Inr (j, b', result')"
      and rec: "scan_loop s j b' result' = Inr toks"
      by (auto split: sum.splits)
    from scan_step_regions [OF True st] obtain ts1 rs0 where
      s1: "result' = result @ ts1" "j \<le> length s"
        "\<forall>rs'. regions_spec (drop j s) = Some rs' \<longrightarrow> regions_spec (drop i s) = Some (rs0 @ rs')"
        "\<forall>cs. structural_tokens_spec b (outside_chars rs0 @ cs)
              = filter (\<lambda>t. structural_kind (kind t)) ts1 @ structural_tokens_spec b' cs"
        "filter (\<lambda>t. string_kind (kind t)) ts1 = concat (literal_groups rs0)"
      by blast
    from "1.IH" [OF True st refl refl rec s1(2)] obtain ts2 rs' where
      s2: "toks = result' @ ts2" "regions_spec (drop j s) = Some rs'"
        "filter (\<lambda>t. structural_kind (kind t)) ts2 = structural_tokens_spec b' (outside_chars rs')"
        "filter (\<lambda>t. string_kind (kind t)) ts2 = concat (literal_groups rs')"
      by blast
    from s1 s2 show ?thesis
      by (intro exI [of _ "ts1 @ ts2"] exI [of _ "rs0 @ rs'"])
        (simp add: outside_chars_append literal_groups_append)
  qed
qed

section \<open>Facts about the regions\<close>

lemma literal_spec_cases [consumes 1, case_names close plain unicode escape]:
  assumes "literal_spec frag (c # cs) = Some (g, rest)"
  obtains
    (close) "c = dquote" "g = [tok STRING (frag @ [c])]" "rest = cs"
  | (plain) "c \<noteq> dquote" "c \<noteq> backslash" "literal_spec (frag @ [c]) cs = Some (g, rest)"
  | (unicode) ds g' where "c = backslash" "cs = CHR ''u'' # ds" "4 \<le> length ds"
      "literal_spec [] (drop 4 ds) = Some (g', rest)"
      "g = tok STRING frag # tok ESCAPE (c # CHR ''u'' # take 4 ds) # g'"
  | (escape) d ds g' where "c = backslash" "cs = d # ds" "d \<noteq> CHR ''u''"
      "literal_spec [] ds = Some (g', rest)" "g = tok STRING frag # tok ESCAPE [c, d] # g'"
proof (cases "c = dquote")
  case True
  with assms show ?thesis by (intro close) simp_all
next
  case nq: False
  show ?thesis
  proof (cases "c = backslash")
    case False
    with nq assms show ?thesis by (intro plain) simp_all
  next
    case True
    with nq assms obtain d ds where cs: "cs = d # ds"
      by (cases cs) simp_all
    show ?thesis
    proof (cases "d = CHR ''u''")
      case u: True
      with nq True cs assms have len: "4 \<le> length ds"
        by (auto split: if_splits)
      with nq True cs u assms obtain g' where
        "literal_spec [] (drop 4 ds) = Some (g', rest)"
        "g = tok STRING frag # tok ESCAPE (c # CHR ''u'' # take 4 ds) # g'"
        by auto
      with True cs u len show ?thesis by (intro unicode) simp_all
    next
      case nu: False
      with nq True cs assms obtain g' where
        "literal_spec [] ds = Some (g', rest)" "g = tok STRING frag # tok ESCAPE [c, d] # g'"
        by auto
      with True cs nu show ?thesis by (intro escape) simp_all
    qed
  qed
qed

text \<open>The lexemes of a region's tokens are its text, the quotes included.\<close>

lemma literal_spec_text:
  "literal_spec frag cs = Some (g, rest) \<Longrightarrow> concat (map lexeme g) @ rest = frag @ cs"
proof (induction cs arbitrary: frag g rest rule: length_induct)
  case (1 cs)
  then obtain c cs' where cs: "cs = c # cs'" by (cases cs) simp_all
  have ih: "concat (map lexeme g0) @ r0 = f @ ys"
    if "length ys < length cs" "literal_spec f ys = Some (g0, r0)" for ys f g0 r0
    using "1.IH" that by blast
  from "1.prems" [unfolded cs] show ?case
  proof (cases rule: literal_spec_cases)
    case close
    with cs show ?thesis by simp
  next
    case plain
    from ih [OF _ plain(3)] cs show ?thesis by simp
  next
    case (unicode ds g')
    from ih [OF _ unicode(4)] unicode cs show ?thesis by simp
  next
    case (escape d ds g')
    from ih [OF _ escape(4)] escape cs show ?thesis by simp
  qed
qed

text \<open>
  The last token of a region is a STRING token that ends with the closing quote, and
  all its tokens are STRING and ESCAPE tokens.
\<close>

lemma literal_spec_last:
  "literal_spec frag cs = Some (g, rest) \<Longrightarrow>
     g \<noteq> [] \<and> kind (last g) = STRING \<and> lexeme (last g) \<noteq> [] \<and> last (lexeme (last g)) = dquote
     \<and> (\<forall>t\<in>set g. kind t = STRING \<or> kind t = ESCAPE)"
proof (induction cs arbitrary: frag g rest rule: length_induct)
  case (1 cs)
  then obtain c cs' where cs: "cs = c # cs'" by (cases cs) simp_all
  have ih: "g0 \<noteq> [] \<and> kind (last g0) = STRING \<and> lexeme (last g0) \<noteq> []
        \<and> last (lexeme (last g0)) = dquote \<and> (\<forall>t\<in>set g0. kind t = STRING \<or> kind t = ESCAPE)"
    if "length ys < length cs" "literal_spec f ys = Some (g0, r0)" for ys f g0 r0
    using "1.IH" that by blast
  from "1.prems" [unfolded cs] show ?case
  proof (cases rule: literal_spec_cases)
    case close
    then show ?thesis by simp
  next
    case plain
    from ih [OF _ plain(3)] cs show ?thesis by simp
  next
    case (unicode ds g')
    from ih [OF _ unicode(4)] unicode cs show ?thesis by simp
  next
    case (escape d ds g')
    from ih [OF _ escape(4)] escape cs show ?thesis by simp
  qed
qed

text \<open>The first token of a region is a STRING token that starts as the fragment does.\<close>

lemma literal_spec_hd:
  "literal_spec frag cs = Some (g, rest) \<Longrightarrow> frag \<noteq> [] \<Longrightarrow>
     kind (hd g) = STRING \<and> lexeme (hd g) \<noteq> [] \<and> hd (lexeme (hd g)) = hd frag"
proof (induction cs arbitrary: frag g rest rule: length_induct)
  case (1 cs)
  then obtain c cs' where cs: "cs = c # cs'" by (cases cs) simp_all
  from "1.prems"(1) [unfolded cs] show ?case
  proof (cases rule: literal_spec_cases)
    case close
    with "1.prems"(2) show ?thesis by simp
  next
    case plain
    have "kind (hd g) = STRING \<and> lexeme (hd g) \<noteq> [] \<and> hd (lexeme (hd g)) = hd (frag @ [c])"
      using "1.IH" cs plain(3) by (metis length_Cons lessI snoc_eq_iff_butlast)
    with "1.prems"(2) show ?thesis by simp
  next
    case (unicode ds g')
    with "1.prems"(2) show ?thesis by simp
  next
    case (escape d ds g')
    with "1.prems"(2) show ?thesis by simp
  qed
qed


lemma regions_cases [consumes 1, case_names outside literal]:
  assumes "regions_spec (c # cs) = Some rs"
  obtains
    (outside) rs' where "c \<noteq> dquote" "regions_spec cs = Some rs'" "rs = Outside c # rs'"
  | (literal) g rest rs' where "c = dquote" "literal_spec [c] cs = Some (g, rest)"
      "regions_spec rest = Some rs'" "rs = Literal g # rs'" "length rest < length cs"
proof (cases "c = dquote")
  case False
  with assms show ?thesis by (auto intro: outside)
next
  case True
  with assms obtain g rest where l: "literal_spec [c] cs = Some (g, rest)"
    by (cases "literal_spec [c] cs") auto
  with True assms obtain rs' where "regions_spec rest = Some rs'" "rs = Literal g # rs'"
    by auto
  with True l literal_spec_rest [OF l] show ?thesis by (intro literal)
qed

text \<open>The regions are the input, cut into pieces.\<close>

lemma regions_text: "regions_spec s = Some rs \<Longrightarrow> concat (map region_text rs) = s"
proof (induction s arbitrary: rs rule: length_induct)
  case (1 s)
  have ih: "concat (map region_text rs0) = ys"
    if "length ys < length s" "regions_spec ys = Some rs0" for ys rs0
    using "1.IH" that by blast
  show ?case
  proof (cases s)
    case Nil
    with "1.prems" show ?thesis by simp
  next
    case (Cons c cs)
    from "1.prems" [unfolded Cons] show ?thesis
    proof (cases rule: regions_cases)
      case (outside rs')
      from ih [OF _ outside(2)] outside Cons show ?thesis by simp
    next
      case (literal g rest rs')
      from ih [OF _ literal(3)] literal(5) Cons have "concat (map region_text rs') = rest" by simp
      with literal_spec_text [OF literal(2)] literal Cons show ?thesis by simp
    qed
  qed
qed

text \<open>
  Every string region starts with a STRING token that begins with the opening quote and
  ends with a STRING token that ends with the closing quote.
\<close>

lemma regions_groups:
  "regions_spec s = Some rs \<Longrightarrow>
     \<forall>g\<in>set (literal_groups rs).
        g \<noteq> [] \<and> kind (hd g) = STRING \<and> lexeme (hd g) \<noteq> [] \<and> hd (lexeme (hd g)) = dquote
        \<and> kind (last g) = STRING \<and> lexeme (last g) \<noteq> [] \<and> last (lexeme (last g)) = dquote
        \<and> (\<forall>t\<in>set g. kind t = STRING \<or> kind t = ESCAPE)"
proof (induction s arbitrary: rs rule: length_induct)
  case (1 s)
  let ?Q = "\<lambda>g. g \<noteq> [] \<and> kind (hd g) = STRING \<and> lexeme (hd g) \<noteq> [] \<and> hd (lexeme (hd g)) = dquote
        \<and> kind (last g) = STRING \<and> lexeme (last g) \<noteq> [] \<and> last (lexeme (last g)) = dquote
        \<and> (\<forall>t\<in>set g. kind t = STRING \<or> kind t = ESCAPE)"
  have ih: "\<forall>g\<in>set (literal_groups rs0). ?Q g"
    if "length ys < length s" "regions_spec ys = Some rs0" for ys rs0
    using "1.IH" that by blast
  show ?case
  proof (cases s)
    case Nil
    with "1.prems" show ?thesis by simp
  next
    case (Cons c cs)
    from "1.prems" [unfolded Cons] show ?thesis
    proof (cases rule: regions_cases)
      case (outside rs')
      from ih [OF _ outside(2)] outside Cons show ?thesis by simp
    next
      case (literal g rest rs')
      from ih [OF _ literal(3)] literal(5) Cons have rest: "\<forall>g\<in>set (literal_groups rs'). ?Q g"
        by simp
      from literal_spec_last [OF literal(2)] literal_spec_hd [OF literal(2)] literal(1)
      have "?Q g" by simp
      with rest literal(4) show ?thesis by simp
    qed
  qed
qed


lemma scan_regions:
  assumes "scan s = Inr toks"
  shows "\<exists>rs. regions_spec s = Some rs
           \<and> filter (\<lambda>t. structural_kind (kind t)) toks = structural_tokens_spec False (outside_chars rs)
           \<and> filter (\<lambda>t. kind t = STRING \<or> kind t = ESCAPE) toks = concat (literal_groups rs)"
  using scan_loop_regions [of s 0 False "[]" toks] assms
  by (auto simp: scan_def string_kind_def)

section \<open>String literals\<close>

lemma not_word_dquote: "\<not> isLetter dquote" "\<not> isDigit dquote"
  by (simp_all add: isLetter_def isDigit_def)

text \<open>
  C3, as the claim states it: the input \<^verbatim>\<open>"a"\<close> is one string literal, and the lexeme
  of its STRING token holds both quote characters.
\<close>

theorem C3_quotes_counterexample:
  "scan [dquote, CHR ''a'', dquote] = Inr [tok STRING [dquote, CHR ''a'', dquote]]
   \<and> dquote \<in> set (lexeme (hd (projr (scan [dquote, CHR ''a'', dquote]))))"
proof -
  have "scan [dquote, CHR ''a'', dquote] = Inr [tok STRING [dquote, CHR ''a'', dquote]]"
    by code_simp
  then show ?thesis by simp
qed

text \<open>
  C3, amended: for every input on which \<^verbatim>\<open>scan\<close> returns, the input is the sequence of
  its regions, and the STRING and ESCAPE tokens returned are, in order, the tokens of
  its string regions. The lexemes of a region's tokens are the text of the region from
  the opening quote to the closing quote, both included: the first token is a STRING
  token whose lexeme starts with the opening quote, the last token is a STRING token
  whose lexeme ends with the closing quote.
\<close>

theorem C3_quotes_in_lexemes:
  assumes "scan s = Inr toks"
  shows "\<exists>rs. regions_spec s = Some rs
           \<and> concat (map region_text rs) = s
           \<and> filter (\<lambda>t. kind t = STRING \<or> kind t = ESCAPE) toks = concat (literal_groups rs)
           \<and> (\<forall>g\<in>set (literal_groups rs).
                 g \<noteq> [] \<and> kind (hd g) = STRING \<and> lexeme (hd g) \<noteq> [] \<and> hd (lexeme (hd g)) = dquote
                 \<and> kind (last g) = STRING \<and> lexeme (last g) \<noteq> [] \<and> last (lexeme (last g)) = dquote
                 \<and> (\<forall>t\<in>set g. kind t = STRING \<or> kind t = ESCAPE))"
proof -
  from scan_regions [OF assms] obtain rs where
    rs: "regions_spec s = Some rs"
      "filter (\<lambda>t. kind t = STRING \<or> kind t = ESCAPE) toks = concat (literal_groups rs)"
    by blast
  from rs regions_text [OF rs(1)] regions_groups [OF rs(1)] show ?thesis
    by (intro exI [of _ rs]) blast
qed

theorem C3_quotes_in_lexemes_witness:
  "scan (''{'' @ [dquote] @ ''a'' @ [backslash] @ ''nb'' @ [dquote] @ '':1}'') =
     Inr [tok LEFT_BRACE ''{'', tok STRING ([dquote] @ ''a''), tok ESCAPE ([backslash] @ ''n''),
          tok STRING (''b'' @ [dquote]), tok COLON '':'', tok NUMBER ''1'', tok RIGHT_BRACE ''}'']
   \<and> regions_spec (''{'' @ [dquote] @ ''a'' @ [backslash] @ ''nb'' @ [dquote] @ '':1}'') =
     Some [Outside CHR ''{'',
           Literal [tok STRING ([dquote] @ ''a''), tok ESCAPE ([backslash] @ ''n''),
                    tok STRING (''b'' @ [dquote])],
           Outside CHR '':'', Outside CHR ''1'', Outside CHR ''}'']
   \<and> filter (\<lambda>t. kind t = STRING \<or> kind t = ESCAPE)
       [tok LEFT_BRACE ''{'', tok STRING ([dquote] @ ''a''), tok ESCAPE ([backslash] @ ''n''),
        tok STRING (''b'' @ [dquote]), tok COLON '':'', tok NUMBER ''1'', tok RIGHT_BRACE ''}'']
     = [tok STRING ([dquote] @ ''a''), tok ESCAPE ([backslash] @ ''n''), tok STRING (''b'' @ [dquote])]"
proof -
  let ?s = "''{'' @ [dquote] @ ''a'' @ [backslash] @ ''nb'' @ [dquote] @ '':1}''"
  let ?toks = "[tok LEFT_BRACE ''{'', tok STRING ([dquote] @ ''a''), tok ESCAPE ([backslash] @ ''n''),
          tok STRING (''b'' @ [dquote]), tok COLON '':'', tok NUMBER ''1'', tok RIGHT_BRACE ''}'']"
  have sc: "scan ?s = Inr ?toks" by code_simp
  have rg: "regions_spec ?s = Some [Outside CHR ''{'',
           Literal [tok STRING ([dquote] @ ''a''), tok ESCAPE ([backslash] @ ''n''),
                    tok STRING (''b'' @ [dquote])],
           Outside CHR '':'', Outside CHR ''1'', Outside CHR ''}'']"
    by code_simp
  from C3_quotes_in_lexemes [OF sc] sc rg show ?thesis by auto
qed

section \<open>Structural characters and the comma toggle\<close>



section \<open>Escape sequences\<close>



section \<open>Strings in the output\<close>

lemma print_string_concat:
  "print_string color w = concat (map (print_string_byte color) w)"
  by (induction w) simp_all

text \<open>
  The printer writes one piece of text for each token, after what is written already:
  for a STRING token one span for each byte of the lexeme, for an ESCAPE token one
  span holding the lexeme.
\<close>

lemma print_token_piece:
  "\<exists>d' piece. print_token (d, out) t = (d', out @ piece)
     \<and> (kind t = STRING \<longrightarrow> piece = concat (map (print_string_byte ''rgb(232, 6, 6)'') (lexeme t)))
     \<and> (kind t = ESCAPE \<longrightarrow> piece = printSpanTags ''rgb(71, 155, 85)'' (lexeme t))"
  by (cases "kind t") (simp_all add: print_token_def print_string_concat)

lemma print_tokens_pieces:
  "\<exists>d' pieces. foldl print_token (d, out) toks = (d', out @ concat pieces)
     \<and> list_all2 (\<lambda>t piece.
          (kind t = STRING \<longrightarrow> piece = concat (map (print_string_byte ''rgb(232, 6, 6)'') (lexeme t)))
        \<and> (kind t = ESCAPE \<longrightarrow> piece = printSpanTags ''rgb(71, 155, 85)'' (lexeme t))) toks pieces"
proof (induction toks arbitrary: d out)
  case Nil
  show ?case by simp
next
  case (Cons t toks)
  let ?P = "\<lambda>t piece.
          (kind t = STRING \<longrightarrow> piece = concat (map (print_string_byte ''rgb(232, 6, 6)'') (lexeme t)))
        \<and> (kind t = ESCAPE \<longrightarrow> piece = printSpanTags ''rgb(71, 155, 85)'' (lexeme t))"
  from print_token_piece [of d out t] obtain d1 piece where
    p: "print_token (d, out) t = (d1, out @ piece)" "?P t piece"
    by blast
  from Cons.IH [of d1 "out @ piece"] obtain d' pieces where
    ps: "foldl print_token (d1, out @ piece) toks = (d', (out @ piece) @ concat pieces)"
      "list_all2 ?P toks pieces"
    by blast
  from p ps show ?case
    by (intro exI [of _ d'] exI [of _ "piece # pieces"]) simp
qed

text \<open>
  C6, as the claim states it: the JSON text \<^verbatim>\<open>"\""\<close> is a string whose content is an
  escaped double quote. The quote after the backslash belongs to the ESCAPE token,
  which is printed verbatim: the output holds the raw character there.
\<close>

theorem C6_escaped_quote_counterexample:
  "scan [dquote, backslash, dquote, dquote] =
     Inr [tok STRING [dquote], tok ESCAPE [backslash, dquote], tok STRING [dquote]]
   \<and> pretty_print [dquote, backslash, dquote, dquote] =
     Inr (''<span style='' @ [dquote] @ ''font-family:monospace; white-space:pre'' @ [dquote] @ ''>''
          @ printSpanTags ''rgb(232, 6, 6)'' ''&quot;''
          @ printSpanTags ''rgb(71, 155, 85)'' [backslash, dquote]
          @ printSpanTags ''rgb(232, 6, 6)'' ''&quot;''
          @ ''</span>'')"
proof -
  have sc: "scan [dquote, backslash, dquote, dquote] =
      Inr [tok STRING [dquote], tok ESCAPE [backslash, dquote], tok STRING [dquote]]"
    by code_simp
  then have "pretty_print [dquote, backslash, dquote, dquote] =
     Inr (''<span style='' @ [dquote] @ ''font-family:monospace; white-space:pre'' @ [dquote] @ ''>''
          @ printSpanTags ''rgb(232, 6, 6)'' ''&quot;''
          @ printSpanTags ''rgb(71, 155, 85)'' [backslash, dquote]
          @ printSpanTags ''rgb(232, 6, 6)'' ''&quot;''
          @ ''</span>'')"
    by (simp add: pretty_print_def colorizedPrint_def print_token_def print_string_byte_def)
  with sc show ?thesis by (rule conjI)
qed

text \<open>
  C6, amended: for every input on which \<^verbatim>\<open>scan\<close> returns, the STRING and ESCAPE tokens
  are the tokens of the input's string regions (a byte of a string outside the escape
  sequences lies in a STRING token; a backslash and the bytes it consumes are an ESCAPE
  token), and the output is the opening tag of the container, one piece of text for
  each token in order, and the closing tag. The piece of a STRING token is one span for
  each byte of its lexeme, in order, and in that span each of the characters
  \<^verbatim>\<open>< > & " '\<close> is its named entity, never the raw character. The piece of an ESCAPE
  token is one span holding its lexeme as it is.
\<close>

theorem C6_string_bytes_as_entities:
  assumes "pretty_print s = Inr out"
  shows "\<exists>toks rs pieces.
           scan s = Inr toks \<and> regions_spec s = Some rs
         \<and> filter (\<lambda>t. kind t = STRING \<or> kind t = ESCAPE) toks = concat (literal_groups rs)
         \<and> out = ''<span style='' @ [dquote] @ ''font-family:monospace; white-space:pre''
                  @ [dquote] @ ''>'' @ concat pieces @ ''</span>''
         \<and> list_all2 (\<lambda>t piece.
              (kind t = STRING \<longrightarrow>
                 piece = concat (map (print_string_byte ''rgb(232, 6, 6)'') (lexeme t)))
            \<and> (kind t = ESCAPE \<longrightarrow> piece = printSpanTags ''rgb(71, 155, 85)'' (lexeme t)))
              toks pieces
         \<and> print_string_byte color CHR ''<'' = printSpanTags color ''&lt;''
         \<and> print_string_byte color CHR ''>'' = printSpanTags color ''&gt;''
         \<and> print_string_byte color CHR ''&'' = printSpanTags color ''&amp;''
         \<and> print_string_byte color dquote = printSpanTags color ''&quot;''
         \<and> print_string_byte color apostrophe = printSpanTags color ''&apos;''"
proof -
  from assms obtain toks where sc: "scan s = Inr toks" and out: "out = colorizedPrint toks"
    by (auto simp: pretty_print_def split: sum.splits)
  from scan_regions [OF sc] obtain rs where
    rs: "regions_spec s = Some rs"
      "filter (\<lambda>t. kind t = STRING \<or> kind t = ESCAPE) toks = concat (literal_groups rs)"
    by blast
  let ?open = "''<span style='' @ [dquote] @ ''font-family:monospace; white-space:pre''
                  @ [dquote] @ ''>''"
  from print_tokens_pieces [of 0 ?open toks] obtain d' pieces where
    ps: "foldl print_token (0, ?open) toks = (d', ?open @ concat pieces)"
      "list_all2 (\<lambda>t piece.
              (kind t = STRING \<longrightarrow>
                 piece = concat (map (print_string_byte ''rgb(232, 6, 6)'') (lexeme t)))
            \<and> (kind t = ESCAPE \<longrightarrow> piece = printSpanTags ''rgb(71, 155, 85)'' (lexeme t)))
              toks pieces"
    by blast
  from ps(1) out have "out = ?open @ concat pieces @ ''</span>''"
    by (simp add: colorizedPrint_def)
  with sc rs ps(2) show ?thesis
    by (intro exI [of _ toks] exI [of _ rs] exI [of _ pieces])
      (simp add: print_string_byte_def)
qed

theorem C6_string_bytes_as_entities_witness:
  "pretty_print (''['' @ [dquote] @ ''a<b'' @ [dquote] @ '']'') =
     Inr (''<span style='' @ [dquote] @ ''font-family:monospace; white-space:pre'' @ [dquote] @ ''>''
          @ printSpanTags ''rgb(232, 71, 162)'' ''[''
          @ printSpanTags ''rgb(232, 6, 6)'' ''&quot;''
          @ printSpanTags ''rgb(232, 6, 6)'' ''a''
          @ printSpanTags ''rgb(232, 6, 6)'' ''&lt;''
          @ printSpanTags ''rgb(232, 6, 6)'' ''b''
          @ printSpanTags ''rgb(232, 6, 6)'' ''&quot;''
          @ printSpanTags ''rgb(232, 71, 162)'' '']''
          @ ''</span>'')
   \<and> scan (''['' @ [dquote] @ ''a<b'' @ [dquote] @ '']'') =
       Inr [tok LEFT_BRACKET ''['', tok STRING ([dquote] @ ''a<b'' @ [dquote]), tok RIGHT_BRACKET '']'']
   \<and> regions_spec (''['' @ [dquote] @ ''a<b'' @ [dquote] @ '']'') =
       Some [Outside CHR ''['', Literal [tok STRING ([dquote] @ ''a<b'' @ [dquote])], Outside CHR '']'']"
proof -
  let ?s = "''['' @ [dquote] @ ''a<b'' @ [dquote] @ '']''"
  have sc: "scan ?s =
      Inr [tok LEFT_BRACKET ''['', tok STRING ([dquote] @ ''a<b'' @ [dquote]), tok RIGHT_BRACKET '']'']"
    by code_simp
  have rg: "regions_spec ?s =
      Some [Outside CHR ''['', Literal [tok STRING ([dquote] @ ''a<b'' @ [dquote])], Outside CHR '']'']"
    by code_simp
  have pp: "pretty_print ?s =
     Inr (''<span style='' @ [dquote] @ ''font-family:monospace; white-space:pre'' @ [dquote] @ ''>''
          @ printSpanTags ''rgb(232, 71, 162)'' ''[''
          @ printSpanTags ''rgb(232, 6, 6)'' ''&quot;''
          @ printSpanTags ''rgb(232, 6, 6)'' ''a''
          @ printSpanTags ''rgb(232, 6, 6)'' ''&lt;''
          @ printSpanTags ''rgb(232, 6, 6)'' ''b''
          @ printSpanTags ''rgb(232, 6, 6)'' ''&quot;''
          @ printSpanTags ''rgb(232, 71, 162)'' '']''
          @ ''</span>'')"
    unfolding pretty_print_def sc
    by (simp add: colorizedPrint_def print_token_def print_string_byte_def string_of_byte_def)
  from C6_string_bytes_as_entities [OF pp] sc rg pp show ?thesis by simp
qed

section \<open>The two panics in general\<close>

text \<open>
  Every string with no closing quote before the end of the input makes the iteration
  that meets its opening quote panic, and so does every run of exactly four bytes at
  the end of the input that starts with \<^verbatim>\<open>t\<close> or \<^verbatim>\<open>n\<close> and is neither \<^verbatim>\<open>true\<close> nor
  \<^verbatim>\<open>null\<close>.
\<close>

lemma unterminated_string_panics:
  assumes "i < length s" and "s ! i = dquote"
    and "\<forall>k. i < k \<and> k < length s \<longrightarrow> s ! k \<noteq> dquote"
  shows "\<exists>e. scan_step s i b result = Inl e"
proof (cases "scan_step s i b result")
  case (Inl e)
  then show ?thesis by blast
next
  case (Inr x)
  obtain j b' result' where "x = (j, b', result')" by (cases x) auto
  with Inr have st: "scan_step s i b result = Inr (j, b', result')" by simp
  from assms(1) st have False
  proof (cases rule: scan_step_cases)
    case (string start m ts)
    then have "i < m" "m < length s" "s ! m = dquote" by simp_all
    with assms(3) show False by blast
  qed (use assms(2) not_word_dquote in simp_all)
  then show ?thesis ..
qed

lemma four_trailing_letters_panic:
  assumes "i + 4 = length s" and "s ! i = CHR ''t'' \<or> s ! i = CHR ''n''"
    and "take 4 (drop i s) \<noteq> ''true''" and "take 4 (drop i s) \<noteq> ''null''"
  shows "scan_step s i b result = Inl SliceOutOfRange"
proof -
  from assms(2) have l: "isLetter (s ! i)" by (auto simp: isLetter_def)
  from isLetter_not_special [OF l] l assms
  show ?thesis
    by (auto simp: scan_step_def letter_case_def true_null_clause_def false_clause_def slice_def)
qed

end
